theory Spec2Isabelle
  imports Main "HOL-Library.AList"
begin

section \<open>JavaScript values\<close>

text \<open>
  The application is a single React component (\<^verbatim>\<open>src/App.jsx\<close>). Its own functions are
  embedded below one by one; this section fixes the meaning of the JavaScript values and
  built-ins they call (\<^verbatim>\<open>Number\<close>, \<^verbatim>\<open>Boolean\<close>, \<^verbatim>\<open>===\<close>,
  \<^verbatim>\<open>JSON.stringify\<close>, \<^verbatim>\<open>JSON.parse\<close>), following ECMA-262.

  A string is the list of its UTF-16 code units, each a natural number (below 65536 for
  every string JavaScript can build). \<open>str\<close> turns an Isabelle literal into such a list.
\<close>

type_synonym jsstring = "nat list"

definition str :: "string \<Rightarrow> jsstring" where
  "str s = map of_char s"

datatype js_error = SyntaxError | TypeError | ReferenceError | SecurityError
  | QuotaExceededError | NotAllowedError

text \<open>
  A finite number \<open>Fin m e\<close> is the decimal \<open>m * 10 ^ e\<close>, kept normalised: \<open>m\<close> is not a
  multiple of ten, and zero is \<open>Fin 0 0\<close>. The program never computes with its numbers (it
  converts, compares and prints them), so they are kept exact: the rounding of a decimal
  literal to the nearest IEEE-754 double, overflow to infinity, underflow to zero and the
  sign of zero are not represented.
\<close>

datatype jsnum = NaN | PosInf | NegInf | Fin int int

datatype jsval = JUndefined | JNull | JBool bool | JNum jsnum | JStr jsstring
  | JArr "jsval list" | JObj "(jsstring \<times> jsval) list"

function strip10 :: "int \<Rightarrow> int \<Rightarrow> int \<times> int" where
  "strip10 m e = (if m \<noteq> 0 \<and> m mod 10 = 0 then strip10 (m div 10) (e + 1) else (m, e))"
  by pat_completeness auto
termination
  by (relation "measure (\<lambda>(m, e). nat \<bar>m\<bar>)") auto

declare strip10.simps [simp del]

definition dec :: "int \<Rightarrow> int \<Rightarrow> jsnum" where
  "dec m e = (if m = 0 then Fin 0 0 else case strip10 m e of (m', e') \<Rightarrow> Fin m' e')"

definition num :: "int \<Rightarrow> jsval" where
  "num n = JNum (dec n 0)"

fun neg :: "jsnum \<Rightarrow> jsnum" where
  "neg NaN = NaN"
| "neg PosInf = NegInf"
| "neg NegInf = PosInf"
| "neg (Fin m e) = Fin (- m) e"

subsection \<open>Digits\<close>

definition is_digit :: "nat \<Rightarrow> bool" where
  "is_digit c = (48 \<le> c \<and> c \<le> 57)"

definition digit_val :: "nat \<Rightarrow> nat" where
  "digit_val c = c - 48"

definition mv_digits :: "jsstring \<Rightarrow> nat" where
  "mv_digits cs = foldl (\<lambda>a c. 10 * a + digit_val c) 0 cs"

function show_nat :: "nat \<Rightarrow> jsstring" where
  "show_nat n = (if n < 10 then [48 + n] else show_nat (n div 10) @ [48 + n mod 10])"
  by pat_completeness auto
termination
  by (relation "measure id") auto

declare show_nat.simps [simp del]

definition all_digits :: "jsstring \<Rightarrow> bool" where
  "all_digits s = (s \<noteq> [] \<and> list_all is_digit s)"

subsection \<open>Number to string (ECMA-262, Number::toString, radix 10)\<close>

text \<open>
  \<open>format_decimal s e\<close> prints the positive number whose significant digits are \<open>s\<close> (there
  are \<open>k\<close> of them) and whose exponent is \<open>e\<close>; with \<open>n = e + k\<close> the four layouts of the
  standard are: digits and zeros, digits with a point inside, a leading \<open>0.\<close>, and the
  exponent notation.
\<close>

definition format_decimal :: "jsstring \<Rightarrow> int \<Rightarrow> jsstring" where
  "format_decimal s e =
     (let k = int (length s); n = e + k in
      if k \<le> n \<and> n \<le> 21 then s @ replicate (nat (n - k)) 48
      else if 0 < n \<and> n \<le> 21 then take (nat n) s @ str ''.'' @ drop (nat n) s
      else if - 6 < n \<and> n \<le> 0 then str ''0.'' @ replicate (nat (- n)) 48 @ s
      else
        (let x = n - 1;
             es = (if x < 0 then str ''-'' else str ''+'') @ show_nat (nat \<bar>x\<bar>) in
         if k = 1 then s @ str ''e'' @ es
         else take 1 s @ str ''.'' @ drop 1 s @ str ''e'' @ es))"

definition Number_toString :: "jsnum \<Rightarrow> jsstring" where
  "Number_toString x =
     (case x of
        NaN \<Rightarrow> str ''NaN''
      | PosInf \<Rightarrow> str ''Infinity''
      | NegInf \<Rightarrow> str ''-Infinity''
      | Fin m e \<Rightarrow>
          if m = 0 then str ''0''
          else (if m < 0 then str ''-'' else []) @ format_decimal (show_nat (nat \<bar>m\<bar>)) e)"

subsection \<open>String to number (ECMA-262, StringToNumber)\<close>

definition is_ws :: "nat \<Rightarrow> bool" where
  "is_ws c = (c \<in> {9, 10, 11, 12, 13, 32, 160, 5760, 8232, 8233, 8239, 8287, 12288, 65279}
     \<or> (8192 \<le> c \<and> c \<le> 8202))"

definition trim :: "jsstring \<Rightarrow> jsstring" where
  "trim s = rev (dropWhile is_ws (rev (dropWhile is_ws s)))"

definition radix_digit :: "nat \<Rightarrow> nat option" where
  "radix_digit c =
     (if 48 \<le> c \<and> c \<le> 57 then Some (c - 48)
      else if 97 \<le> c \<and> c \<le> 102 then Some (c - 87)
      else if 65 \<le> c \<and> c \<le> 70 then Some (c - 55)
      else None)"

definition radix_digits :: "nat \<Rightarrow> jsstring \<Rightarrow> nat option" where
  "radix_digits b cs =
     (if cs \<noteq> [] \<and> list_all (\<lambda>c. case radix_digit c of None \<Rightarrow> False | Some d \<Rightarrow> d < b) cs
      then Some (foldl (\<lambda>a c. b * a + the (radix_digit c)) 0 cs)
      else None)"

text \<open>\<^verbatim>\<open>0x1F\<close>, \<^verbatim>\<open>0o17\<close>, \<^verbatim>\<open>0b101\<close>: no sign, at least one digit.\<close>

definition str_nondecimal :: "jsstring \<Rightarrow> nat option" where
  "str_nondecimal s =
     (case s of
        z # p # ds \<Rightarrow>
          if z \<noteq> 48 then None
          else if p = 120 \<or> p = 88 then radix_digits 16 ds
          else if p = 111 \<or> p = 79 then radix_digits 8 ds
          else if p = 98 \<or> p = 66 then radix_digits 2 ds
          else None
      | _ \<Rightarrow> None)"

text \<open>The exponent part: nothing, or \<^verbatim>\<open>e\<close>/\<^verbatim>\<open>E\<close>, an optional sign and digits.\<close>

definition str_exponent :: "jsstring \<Rightarrow> int option" where
  "str_exponent s =
     (case s of
        [] \<Rightarrow> Some 0
      | c # r \<Rightarrow>
          if c = 101 \<or> c = 69 then
            (case r of
               [] \<Rightarrow> None
             | d # r' \<Rightarrow>
                 if d = 43 then (if all_digits r' then Some (int (mv_digits r')) else None)
                 else if d = 45 then (if all_digits r' then Some (- int (mv_digits r')) else None)
                 else if all_digits r then Some (int (mv_digits r))
                 else None)
          else None)"

definition str_unsigned_decimal :: "jsstring \<Rightarrow> jsnum option" where
  "str_unsigned_decimal s =
     (if s = str ''Infinity'' then Some PosInf
      else
        (let ip = takeWhile is_digit s; r1 = dropWhile is_digit s in
         case r1 of
           [] \<Rightarrow> if ip = [] then None else Some (dec (int (mv_digits ip)) 0)
         | c # r2 \<Rightarrow>
             if c = 46 then
               (let fp = takeWhile is_digit r2; r3 = dropWhile is_digit r2 in
                if ip = [] \<and> fp = [] then None
                else (case str_exponent r3 of
                        None \<Rightarrow> None
                      | Some x \<Rightarrow> Some (dec (int (mv_digits (ip @ fp))) (x - int (length fp)))))
             else if ip = [] then None
             else (case str_exponent r1 of
                     None \<Rightarrow> None
                   | Some x \<Rightarrow> Some (dec (int (mv_digits ip)) x))))"

definition str_decimal :: "jsstring \<Rightarrow> jsnum option" where
  "str_decimal s =
     (case s of
        [] \<Rightarrow> None
      | c # r \<Rightarrow>
          if c = 43 then str_unsigned_decimal r
          else if c = 45 then map_option neg (str_unsigned_decimal r)
          else str_unsigned_decimal s)"

definition StringToNumber :: "jsstring \<Rightarrow> jsnum" where
  "StringToNumber s0 =
     (let s = trim s0 in
      if s = [] then Fin 0 0
      else (case str_nondecimal s of
              Some n \<Rightarrow> dec (int n) 0
            | None \<Rightarrow> (case str_decimal s of Some x \<Rightarrow> x | None \<Rightarrow> NaN)))"

subsection \<open>Conversions and comparisons\<close>

fun join :: "jsstring list \<Rightarrow> jsstring" where
  "join [] = []"
| "join [x] = x"
| "join (x # y # r) = x @ 44 # join (y # r)"

fun sequence :: "(js_error + 'a) list \<Rightarrow> js_error + 'a list" where
  "sequence [] = Inr []"
| "sequence (x # xs) =
     (case x of
        Inl e \<Rightarrow> Inl e
      | Inr v \<Rightarrow> (case sequence xs of Inl e \<Rightarrow> Inl e | Inr vs \<Rightarrow> Inr (v # vs)))"

text \<open>
  \<^verbatim>\<open>ToString\<close>. An array prints its elements joined by commas, \<^verbatim>\<open>null\<close> and
  \<^verbatim>\<open>undefined\<close> elements as nothing. A plain object prints as \<^verbatim>\<open>[object Object]\<close>
  through the inherited method, unless an own property named \<^verbatim>\<open>toString\<close> shadows it:
  that property holds data, is not callable, and the conversion throws a TypeError.
\<close>

fun ToString :: "jsval \<Rightarrow> js_error + jsstring" where
  "ToString JUndefined = Inr (str ''undefined'')"
| "ToString JNull = Inr (str ''null'')"
| "ToString (JBool b) = Inr (if b then str ''true'' else str ''false'')"
| "ToString (JNum x) = Inr (Number_toString x)"
| "ToString (JStr s) = Inr s"
| "ToString (JArr xs) =
     (case sequence (map (\<lambda>x. if x = JUndefined \<or> x = JNull then Inr [] else ToString x) xs) of
        Inl e \<Rightarrow> Inl e
      | Inr ts \<Rightarrow> Inr (join ts))"
| "ToString (JObj ps) =
     (if str ''toString'' \<in> fst ` set ps then Inl TypeError else Inr (str ''[object Object]''))"

text \<open>\<^verbatim>\<open>Number(v)\<close>: an array or object is first converted to its string.\<close>

fun Number :: "jsval \<Rightarrow> js_error + jsnum" where
  "Number JUndefined = Inr NaN"
| "Number JNull = Inr (Fin 0 0)"
| "Number (JBool b) = Inr (if b then Fin 1 0 else Fin 0 0)"
| "Number (JNum x) = Inr x"
| "Number (JStr s) = Inr (StringToNumber s)"
| "Number v = (case ToString v of Inl e \<Rightarrow> Inl e | Inr s \<Rightarrow> Inr (StringToNumber s))"

text \<open>Truthiness of a number: neither \<^verbatim>\<open>NaN\<close> nor zero.\<close>

definition truthy_num :: "jsnum \<Rightarrow> bool" where
  "truthy_num x = (x \<noteq> NaN \<and> x \<noteq> Fin 0 0)"

fun Boolean :: "jsval \<Rightarrow> bool" where
  "Boolean JUndefined = False"
| "Boolean JNull = False"
| "Boolean (JBool b) = b"
| "Boolean (JNum x) = truthy_num x"
| "Boolean (JStr s) = (s \<noteq> [])"
| "Boolean v = True"

text \<open>
  \<^verbatim>\<open>a === b\<close> and \<^verbatim>\<open>Object.is(a, b)\<close>. They differ on \<^verbatim>\<open>NaN\<close>. Arrays and objects
  are compared by structure here, where JavaScript compares references; the program only
  ever applies \<^verbatim>\<open>===\<close> with a string on one side.
\<close>

definition strict_eq :: "jsval \<Rightarrow> jsval \<Rightarrow> bool" where
  "strict_eq a b = (a = b \<and> a \<noteq> JNum NaN)"

definition Object_is :: "jsval \<Rightarrow> jsval \<Rightarrow> bool" where
  "Object_is a b = (a = b)"

section \<open>JSON\<close>

subsection \<open>\<^verbatim>\<open>JSON.stringify\<close>\<close>

definition hexdig :: "nat \<Rightarrow> nat" where
  "hexdig d = (if d < 10 then 48 + d else 87 + d)"

definition hex4 :: "nat \<Rightarrow> jsstring" where
  "hex4 c = [hexdig (c div 4096 mod 16), hexdig (c div 256 mod 16), hexdig (c div 16 mod 16),
     hexdig (c mod 16)]"

definition unicode_escape :: "nat \<Rightarrow> jsstring" where
  "unicode_escape c = 92 # 117 # hex4 c"

definition is_high_surrogate :: "nat \<Rightarrow> bool" where
  "is_high_surrogate c = (55296 \<le> c \<and> c \<le> 56319)"

definition is_low_surrogate :: "nat \<Rightarrow> bool" where
  "is_low_surrogate c = (56320 \<le> c \<and> c \<le> 57343)"

text \<open>One code unit that is not a surrogate, as QuoteJSONString writes it.\<close>

definition quote_unit :: "nat \<Rightarrow> jsstring" where
  "quote_unit c =
     (if c = 8 then [92, 98]
      else if c = 9 then [92, 116]
      else if c = 10 then [92, 110]
      else if c = 12 then [92, 102]
      else if c = 13 then [92, 114]
      else if c = 34 then [92, 34]
      else if c = 92 then [92, 92]
      else if c < 32 then unicode_escape c
      else [c])"

text \<open>A surrogate pair is copied; a surrogate without its partner is escaped.\<close>

fun quote_units :: "jsstring \<Rightarrow> jsstring" where
  "quote_units [] = []"
| "quote_units (c # cs) =
     (if is_high_surrogate c then
        (case cs of
           [] \<Rightarrow> unicode_escape c
         | d # ds \<Rightarrow>
             if is_low_surrogate d then c # d # quote_units ds
             else unicode_escape c @ quote_units cs)
      else if is_low_surrogate c then unicode_escape c @ quote_units cs
      else quote_unit c @ quote_units cs)"

definition QuoteJSONString :: "jsstring \<Rightarrow> jsstring" where
  "QuoteJSONString s = 34 # quote_units s @ [34]"

text \<open>
  \<open>None\<close> is the result \<^verbatim>\<open>undefined\<close>. Values read from JSON hold no function, so no
  \<^verbatim>\<open>toJSON\<close> is ever called, and they are finite trees, so no cycle is ever met.
\<close>

fun JSON_stringify :: "jsval \<Rightarrow> jsstring option" where
  "JSON_stringify JUndefined = None"
| "JSON_stringify JNull = Some (str ''null'')"
| "JSON_stringify (JBool b) = Some (if b then str ''true'' else str ''false'')"
| "JSON_stringify (JNum x) =
     Some (case x of Fin m e \<Rightarrow> Number_toString (Fin m e) | _ \<Rightarrow> str ''null'')"
| "JSON_stringify (JStr s) = Some (QuoteJSONString s)"
| "JSON_stringify (JArr xs) =
     Some (91 # join (map (\<lambda>x. case JSON_stringify x of None \<Rightarrow> str ''null'' | Some t \<Rightarrow> t) xs)
       @ [93])"
| "JSON_stringify (JObj ps) =
     Some (123 # join (concat (map (\<lambda>p. case JSON_stringify (snd p) of
                                            None \<Rightarrow> []
                                          | Some t \<Rightarrow> [QuoteJSONString (fst p) @ 58 # t]) ps))
       @ [125])"

subsection \<open>\<^verbatim>\<open>JSON.parse\<close>\<close>

text \<open>
  A recursive-descent parser of the JSON grammar (ECMA-404). Each parser takes the input
  and returns the value read with the input left over, or \<open>None\<close> for a syntax error.
\<close>

definition is_json_ws :: "nat \<Rightarrow> bool" where
  "is_json_ws c = (c = 32 \<or> c = 9 \<or> c = 10 \<or> c = 13)"

definition skip_ws :: "jsstring \<Rightarrow> jsstring" where
  "skip_ws s = dropWhile is_json_ws s"

definition unescape :: "nat \<Rightarrow> nat option" where
  "unescape c =
     (if c = 34 then Some 34
      else if c = 92 then Some 92
      else if c = 47 then Some 47
      else if c = 98 then Some 8
      else if c = 102 then Some 12
      else if c = 110 then Some 10
      else if c = 114 then Some 13
      else if c = 116 then Some 9
      else None)"

definition unhex4 :: "nat \<Rightarrow> nat \<Rightarrow> nat \<Rightarrow> nat \<Rightarrow> nat option" where
  "unhex4 a b c d =
     (case (radix_digit a, radix_digit b, radix_digit c, radix_digit d) of
        (Some w, Some x, Some y, Some z) \<Rightarrow> Some (4096 * w + 256 * x + 16 * y + z)
      | _ \<Rightarrow> None)"

text \<open>The characters of a string after its opening quote, up to the closing one.\<close>

fun parse_chars :: "jsstring \<Rightarrow> (jsstring \<times> jsstring) option" where
  "parse_chars [] = None"
| "parse_chars (c # r) =
     (if c = 34 then Some ([], r)
      else if c = 92 then
        (case r of
           [] \<Rightarrow> None
         | x # r1 \<Rightarrow>
             if x = 117 then
               (case r1 of
                  h1 # h2 # h3 # h4 # r2 \<Rightarrow>
                    (case unhex4 h1 h2 h3 h4 of
                       None \<Rightarrow> None
                     | Some u \<Rightarrow>
                         (case parse_chars r2 of
                            None \<Rightarrow> None
                          | Some (t, rest) \<Rightarrow> Some (u # t, rest)))
                | _ \<Rightarrow> None)
             else
               (case unescape x of
                  None \<Rightarrow> None
                | Some u \<Rightarrow>
                    (case parse_chars r1 of
                       None \<Rightarrow> None
                     | Some (t, rest) \<Rightarrow> Some (u # t, rest))))
      else if c < 32 then None
      else (case parse_chars r of None \<Rightarrow> None | Some (t, rest) \<Rightarrow> Some (c # t, rest)))"

text \<open>
  A number: an optional minus, an integer part without a leading zero, an optional
  fraction and an optional exponent, each with at least one digit.
\<close>

definition parse_exponent :: "jsstring \<Rightarrow> (int \<times> jsstring) option" where
  "parse_exponent s =
     (case s of
        [] \<Rightarrow> Some (0, [])
      | c # r \<Rightarrow>
          if c = 101 \<or> c = 69 then
            (let (sg, ds) = (case r of
                               [] \<Rightarrow> (1, r)
                             | d # r' \<Rightarrow> if d = 43 then (1, r') else if d = 45 then (- 1, r')
                                         else (1, r)) in
             if takeWhile is_digit ds = [] then None
             else Some (sg * int (mv_digits (takeWhile is_digit ds)), dropWhile is_digit ds))
          else Some (0, s))"

definition parse_fraction :: "jsstring \<Rightarrow> (jsstring \<times> jsstring) option" where
  "parse_fraction s =
     (case s of
        [] \<Rightarrow> Some ([], [])
      | c # r \<Rightarrow>
          if c = 46 then
            (if takeWhile is_digit r = [] then None
             else Some (takeWhile is_digit r, dropWhile is_digit r))
          else Some ([], s))"

definition parse_unsigned :: "jsstring \<Rightarrow> (jsnum \<times> jsstring) option" where
  "parse_unsigned s =
     (case s of
        [] \<Rightarrow> None
      | c # r \<Rightarrow>
          if \<not> is_digit c then None
          else
            (let ip = (if c = 48 then [c] else takeWhile is_digit s);
                 r1 = (if c = 48 then r else dropWhile is_digit s) in
             case parse_fraction r1 of
               None \<Rightarrow> None
             | Some (fp, r2) \<Rightarrow>
                 (case parse_exponent r2 of
                    None \<Rightarrow> None
                  | Some (x, r3) \<Rightarrow>
                      Some (dec (int (mv_digits (ip @ fp))) (x - int (length fp)), r3))))"

definition parse_number :: "jsstring \<Rightarrow> (jsnum \<times> jsstring) option" where
  "parse_number s =
     (case s of
        [] \<Rightarrow> None
      | c # r \<Rightarrow>
          if c = 45 then
            (case parse_unsigned r of None \<Rightarrow> None | Some (x, rest) \<Rightarrow> Some (neg x, rest))
          else parse_unsigned s)"

definition parse_literal :: "jsstring \<Rightarrow> (jsval \<times> jsstring) option" where
  "parse_literal s =
     (if take 4 s = str ''true'' then Some (JBool True, drop 4 s)
      else if take 5 s = str ''false'' then Some (JBool False, drop 5 s)
      else if take 4 s = str ''null'' then Some (JNull, drop 4 s)
      else None)"

text \<open>
  The properties of an object, in the order JavaScript enumerates them: the keys that are
  array indices first, ascending, then the other keys in the order of their creation. A
  repeated key keeps its place and takes the later value.
\<close>

definition is_array_index :: "jsstring \<Rightarrow> bool" where
  "is_array_index k =
     (all_digits k \<and> (k = [48] \<or> hd k \<noteq> 48) \<and> mv_digits k < 4294967295)"

fun insert_index :: "jsstring \<Rightarrow> jsval \<Rightarrow> (jsstring \<times> jsval) list \<Rightarrow> (jsstring \<times> jsval) list" where
  "insert_index k v [] = [(k, v)]"
| "insert_index k v (p # ps) =
     (if is_array_index (fst p) \<and> mv_digits (fst p) < mv_digits k then p # insert_index k v ps
      else (k, v) # p # ps)"

definition obj_put :: "jsstring \<Rightarrow> jsval \<Rightarrow> (jsstring \<times> jsval) list \<Rightarrow> (jsstring \<times> jsval) list" where
  "obj_put k v ps =
     (if k \<in> fst ` set ps then AList.update k v ps
      else if is_array_index k then insert_index k v ps
      else ps @ [(k, v)])"

text \<open>
  Values nest, so the three parsers call each other. The first argument bounds the number
  of nested calls; \<open>JSON_parse\<close> starts with a bound that no input exhausts, since every
  second call at least consumes a character (lemma \<open>JSON_parse_any_fuel\<close> below).
\<close>

function parse_value :: "nat \<Rightarrow> jsstring \<Rightarrow> (jsval \<times> jsstring) option"
  and parse_elements :: "nat \<Rightarrow> jsval list \<Rightarrow> jsstring \<Rightarrow> (jsval \<times> jsstring) option"
  and parse_members :: "nat \<Rightarrow> (jsstring \<times> jsval) list \<Rightarrow> jsstring \<Rightarrow> (jsval \<times> jsstring) option"
where
  "parse_value fuel s =
     (if fuel = 0 then None
      else
        (case skip_ws s of
           [] \<Rightarrow> None
         | c # r \<Rightarrow>
             if c = 123 then
               (case skip_ws r of
                  [] \<Rightarrow> None
                | d # r' \<Rightarrow>
                    if d = 125 then Some (JObj [], r') else parse_members (fuel - 1) [] r)
             else if c = 91 then
               (case skip_ws r of
                  [] \<Rightarrow> None
                | d # r' \<Rightarrow>
                    if d = 93 then Some (JArr [], r') else parse_elements (fuel - 1) [] r)
             else if c = 34 then
               (case parse_chars r of None \<Rightarrow> None | Some (t, r') \<Rightarrow> Some (JStr t, r'))
             else if c = 45 \<or> is_digit c then
               (case parse_number (c # r) of None \<Rightarrow> None | Some (x, r') \<Rightarrow> Some (JNum x, r'))
             else parse_literal (c # r)))"
| "parse_elements fuel acc s =
     (if fuel = 0 then None
      else
        (case parse_value (fuel - 1) s of
           None \<Rightarrow> None
         | Some (v, r) \<Rightarrow>
             (case skip_ws r of
                [] \<Rightarrow> None
              | c # r' \<Rightarrow>
                  if c = 44 then parse_elements (fuel - 1) (acc @ [v]) r'
                  else if c = 93 then Some (JArr (acc @ [v]), r')
                  else None)))"
| "parse_members fuel acc s =
     (if fuel = 0 then None
      else
        (case skip_ws s of
           [] \<Rightarrow> None
         | q # r \<Rightarrow>
             if q \<noteq> 34 then None
             else
               (case parse_chars r of
                  None \<Rightarrow> None
                | Some (k, r1) \<Rightarrow>
                    (case skip_ws r1 of
                       [] \<Rightarrow> None
                     | colon # r2 \<Rightarrow>
                         if colon \<noteq> 58 then None
                         else
                           (case parse_value (fuel - 1) r2 of
                              None \<Rightarrow> None
                            | Some (v, r3) \<Rightarrow>
                                (case skip_ws r3 of
                                   [] \<Rightarrow> None
                                 | c # r4 \<Rightarrow>
                                     if c = 44 then parse_members (fuel - 1) (obj_put k v acc) r4
                                     else if c = 125 then Some (JObj (obj_put k v acc), r4)
                                     else None))))))"
  by pat_completeness auto
termination
  by (relation "measure (\<lambda>x. case x of Inl (f, _) \<Rightarrow> f | Inr (Inl (f, _, _)) \<Rightarrow> f | Inr (Inr (f, _, _)) \<Rightarrow> f)")
    auto

declare parse_value.simps [simp del] parse_elements.simps [simp del] parse_members.simps [simp del]

definition JSON_parse :: "jsstring \<Rightarrow> js_error + jsval" where
  "JSON_parse s =
     (case parse_value (2 * length s + 2) s of
        None \<Rightarrow> Inl SyntaxError
      | Some (v, r) \<Rightarrow> if skip_ws r = [] then Inr v else Inl SyntaxError)"

section \<open>The browser\<close>

subsection \<open>Exceptions\<close>

text \<open>
  A computation that can throw returns \<open>Inl\<close> of the exception. \<open>try_catch\<close> is
  \<^verbatim>\<open>try { body } catch { handler }\<close> with a handler that ignores the exception.
\<close>

definition try_catch :: "js_error + 'a \<Rightarrow> js_error + 'a \<Rightarrow> js_error + 'a" where
  "try_catch body handler = (case body of Inl e \<Rightarrow> handler | Inr v \<Rightarrow> Inr v)"

definition bind_js :: "js_error + 'a \<Rightarrow> ('a \<Rightarrow> js_error + 'b) \<Rightarrow> js_error + 'b" where
  "bind_js x f = (case x of Inl e \<Rightarrow> Inl e | Inr v \<Rightarrow> f v)"

subsection \<open>\<^verbatim>\<open>window.localStorage\<close>\<close>

text \<open>
  The durable store maps keys to texts. Access can be refused altogether (storage disabled
  by the user or by policy: every use throws a SecurityError), and room can be limited:
  \<open>quota\<close> bounds the code units of all keys and texts, and \<^verbatim>\<open>setItem\<close> throws a
  QuotaExceededError rather than go beyond it.
\<close>

record storage =
  items :: "(jsstring \<times> jsstring) list"
  denied :: bool
  quota :: "nat option"

definition storage_size :: "(jsstring \<times> jsstring) list \<Rightarrow> nat" where
  "storage_size xs = sum_list (map (\<lambda>p. length (fst p) + length (snd p)) xs)"

definition has_room :: "storage \<Rightarrow> jsstring \<Rightarrow> jsstring \<Rightarrow> bool" where
  "has_room st k t =
     (case quota st of
        None \<Rightarrow> True
      | Some q \<Rightarrow> storage_size (AList.update k t (items st)) \<le> q)"

definition getItem :: "storage \<Rightarrow> jsstring \<Rightarrow> js_error + jsstring option" where
  "getItem st k = (if denied st then Inl SecurityError else Inr (map_of (items st) k))"

definition setItem :: "storage \<Rightarrow> jsstring \<Rightarrow> jsstring \<Rightarrow> js_error + storage" where
  "setItem st k t =
     (if denied st then Inl SecurityError
      else if \<not> has_room st k t then Inl QuotaExceededError
      else Inr (st\<lparr>items := AList.update k t (items st)\<rparr>))"

subsection \<open>Timers\<close>

text \<open>
  \<^verbatim>\<open>window.setTimeout\<close> and \<^verbatim>\<open>window.clearTimeout\<close>. A pending timer is its handle
  and the time at which it is due, in milliseconds. Handles are positive and never reused.
  The program has a single callback for its timers, so the table does not store it.
\<close>

record timers =
  pending :: "(nat \<times> nat) list"
  next_timer :: nat
  clock :: nat

definition setTimeout :: "timers \<Rightarrow> nat \<Rightarrow> nat \<times> timers" where
  "setTimeout t delay =
     (next_timer t,
      t\<lparr>pending := pending t @ [(next_timer t, clock t + delay)],
        next_timer := Suc (next_timer t)\<rparr>)"

definition clearTimeout :: "timers \<Rightarrow> nat \<Rightarrow> timers" where
  "clearTimeout t h = t\<lparr>pending := filter (\<lambda>p. fst p \<noteq> h) (pending t)\<rparr>"

subsection \<open>\<^verbatim>\<open>navigator.clipboard\<close>\<close>

text \<open>
  The clipboard interface is absent outside a secure context, and a write is rejected
  when the page lacks the permission or the focus. The text written is the argument
  converted to a string.
\<close>

record clipboard =
  contents :: "jsstring option"
  permitted :: bool

type_synonym navigator = "clipboard option"

definition writeText :: "navigator \<Rightarrow> jsval \<Rightarrow> js_error + navigator" where
  "writeText nav text =
     (case nav of
        None \<Rightarrow> Inl TypeError
      | Some cb \<Rightarrow>
          bind_js (ToString text) (\<lambda>s.
            if permitted cb then Inr (Some (cb\<lparr>contents := Some s\<rparr>))
            else Inl NotAllowedError))"

subsection \<open>The diff editor\<close>

text \<open>
  The external widget, as far as the program drives it (section 6 of the specification):
  an editor has two sides, each with a current text (\<^verbatim>\<open>getValue\<close>) and content
  listeners.
  \<^verbatim>\<open>onDidChangeModelContent\<close> registers a listener and returns a disposable, here its
  handle; disposing removes the listener. The listener table holds the listeners of this
  program: handle, editor and side.
\<close>

datatype side = OriginalSide | ModifiedSide

record monaco =
  listeners :: "(nat \<times> nat \<times> side) list"
  next_handle :: nat
  texts :: "nat \<Rightarrow> side \<Rightarrow> jsstring"

definition onDidChangeModelContent :: "monaco \<Rightarrow> nat \<Rightarrow> side \<Rightarrow> nat \<times> monaco" where
  "onDidChangeModelContent m ed sd =
     (next_handle m,
      m\<lparr>listeners := listeners m @ [(next_handle m, ed, sd)],
        next_handle := Suc (next_handle m)\<rparr>)"

definition dispose :: "nat \<Rightarrow> monaco \<Rightarrow> monaco" where
  "dispose h m = m\<lparr>listeners := filter (\<lambda>l. fst l \<noteq> h) (listeners m)\<rparr>"

definition getValue :: "monaco \<Rightarrow> nat \<Rightarrow> side \<Rightarrow> jsstring" where
  "getValue m ed sd = texts m ed sd"

subsection \<open>The number control\<close>

text \<open>
  The font size is typed into an \<^verbatim>\<open><input type="number">\<close>. The value of such a control
  is sanitised (HTML, the value sanitisation algorithm of the Number state): it is what
  was entered when that is a valid floating-point number, and the empty string
  otherwise. A valid floating-point number is an optional \<^verbatim>\<open>-\<close>, then digits, or digits
  (possibly none) followed by a point and digits, then optionally an exponent: \<^verbatim>\<open>e\<close> or
  \<^verbatim>\<open>E\<close>, an optional sign and digits.
\<close>

definition valid_exponent :: "jsstring \<Rightarrow> bool" where
  "valid_exponent r =
     (case r of
        [] \<Rightarrow> True
      | c # r1 \<Rightarrow>
          (c = 101 \<or> c = 69) \<and>
          (case r1 of
             [] \<Rightarrow> False
           | d # r2 \<Rightarrow> if d = 45 \<or> d = 43 then all_digits r2 else all_digits r1))"

definition valid_unsigned :: "jsstring \<Rightarrow> bool" where
  "valid_unsigned u =
     (let ip = takeWhile is_digit u; r1 = dropWhile is_digit u in
      case r1 of
        [] \<Rightarrow> ip \<noteq> []
      | c # r2 \<Rightarrow>
          if c = 46 then takeWhile is_digit r2 \<noteq> [] \<and> valid_exponent (dropWhile is_digit r2)
          else ip \<noteq> [] \<and> valid_exponent r1)"

definition valid_floating_point_number :: "jsstring \<Rightarrow> bool" where
  "valid_floating_point_number s =
     (case s of [] \<Rightarrow> False | c # r \<Rightarrow> if c = 45 then valid_unsigned r else valid_unsigned s)"

definition number_input_value :: "jsstring \<Rightarrow> jsstring" where
  "number_input_value entry = (if valid_floating_point_number entry then entry else [])"

section \<open>The application (\<^verbatim>\<open>src/App.jsx\<close>)\<close>

subsection \<open>Constants\<close>

definition text_lines :: "string list \<Rightarrow> jsstring" where
  "text_lines ls = concat (map (\<lambda>l. str l @ [10]) ls)"

definition SAMPLE_ORIGINAL :: jsstring where
  "SAMPLE_ORIGINAL = text_lines
     [''export function formatUser(name) {'',
      ''  return \"Hello \" + name + \"!\"'',
      ''}'',
      [],
      ''export function toSlug(input) {'',
      ''  return input.trim().toLowerCase().replaceAll(\" \", \"-\")'',
      ''}'']"

text \<open>
  In the second sample the source escapes a backquote, a dollar sign and a backslash
  inside its template literal; the text holds the characters themselves (code units 96,
  36 and 92).
\<close>

definition SAMPLE_MODIFIED :: jsstring where
  "SAMPLE_MODIFIED =
     text_lines
       [''export function formatUser(name) {'',
        ''  const clean = name.trim()'']
     @ str ''  return '' @ [96] @ str ''Hello ${clean}!'' @ [96, 10]
     @ text_lines
       [''}'',
        [],
        ''export function toSlug(input) {'']
     @ str ''  return input.trim().toLowerCase().replaceAll(/'' @ [92] @ str ''s+/g, \"-\")'' @ [10]
     @ text_lines [''}'']"

subsection \<open>\<^verbatim>\<open>readStorage\<close> and \<^verbatim>\<open>writeStorage\<close>\<close>

text \<open>
  The first argument of \<open>readStorage\<close> is \<^verbatim>\<open>window.localStorage\<close>, or \<open>None\<close> where
  there is no \<^verbatim>\<open>window\<close> (the component rendered outside a browser).
  \<^verbatim>\<open>raw == null\<close> holds exactly when \<^verbatim>\<open>getItem\<close> found no entry.
\<close>

definition readStorage :: "storage option \<Rightarrow> jsstring \<Rightarrow> jsval \<Rightarrow> js_error + jsval" where
  "readStorage window key fallback =
     (case window of
        None \<Rightarrow> Inr fallback
      | Some ls \<Rightarrow>
          try_catch
            (bind_js (getItem ls key) (\<lambda>raw.
               case raw of
                 None \<Rightarrow> Inr fallback
               | Some t \<Rightarrow> JSON_parse t))
            (Inr fallback))"

text \<open>
  \<open>writeStorage\<close> runs in effects, so in a browser. \<^verbatim>\<open>setItem\<close> stores the string of
  its argument (\<open>stored_text\<close>): the text \<^verbatim>\<open>undefined\<close> when \<^verbatim>\<open>JSON.stringify\<close> returns
  no text. The function returns \<^verbatim>\<open>undefined\<close> on both paths; the result here is the
  store afterwards.
\<close>

definition stored_text :: "jsval \<Rightarrow> jsstring" where
  "stored_text v = (case JSON_stringify v of None \<Rightarrow> str ''undefined'' | Some t \<Rightarrow> t)"

definition writeStorage :: "storage \<Rightarrow> jsstring \<Rightarrow> jsval \<Rightarrow> js_error + storage" where
  "writeStorage ls key v = try_catch (setItem ls key (stored_text v)) (Inr ls)"

subsection \<open>\<^verbatim>\<open>copyToClipboard\<close>\<close>

text \<open>The result is the value the returned promise resolves to, with the clipboard after.\<close>

definition copyToClipboard :: "navigator \<Rightarrow> jsval \<Rightarrow> js_error + bool \<times> navigator" where
  "copyToClipboard nav text =
     try_catch
       (bind_js (writeText nav text) (\<lambda>nav'. Inr (True, nav')))
       (Inr (False, nav))"

subsection \<open>The state of the component\<close>

text \<open>
  \<^verbatim>\<open>App\<close> holds eight state variables: seven through \<^verbatim>\<open>useLocalStorageState\<close> and
  \<^verbatim>\<open>toast\<close> through \<^verbatim>\<open>useState\<close>.
\<close>

datatype slot = Original | Modified | Language | Theme | SideBySide | IgnoreTrimWhitespace
  | FontSize | Toast

definition persisted :: "slot list" where
  "persisted = [Original, Modified, Language, Theme, SideBySide, IgnoreTrimWhitespace, FontSize]"

fun storage_key :: "slot \<Rightarrow> jsstring" where
  "storage_key Original = str ''codeDiff.original''"
| "storage_key Modified = str ''codeDiff.modified''"
| "storage_key Language = str ''codeDiff.language''"
| "storage_key Theme = str ''codeDiff.theme''"
| "storage_key SideBySide = str ''codeDiff.sideBySide''"
| "storage_key IgnoreTrimWhitespace = str ''codeDiff.ignoreTrimWhitespace''"
| "storage_key FontSize = str ''codeDiff.fontSize''"
| "storage_key Toast = []"

fun initialValue :: "slot \<Rightarrow> jsval" where
  "initialValue Original = JStr SAMPLE_ORIGINAL"
| "initialValue Modified = JStr SAMPLE_MODIFIED"
| "initialValue Language = JStr (str ''javascript'')"
| "initialValue Theme = JStr (str ''vs-dark'')"
| "initialValue SideBySide = JBool True"
| "initialValue IgnoreTrimWhitespace = JBool True"
| "initialValue FontSize = num 14"
| "initialValue Toast = JNull"

text \<open>
  The argument of a state setter: a value, or one of the two updater functions of the
  source, \<^verbatim>\<open>(prev) => (prev === v ? prev : v)\<close> and \<^verbatim>\<open>(v) => !v\<close>.
\<close>

datatype setarg = Put jsval | KeepIfSame jsstring | Flip

fun apply_setarg :: "setarg \<Rightarrow> jsval \<Rightarrow> jsval" where
  "apply_setarg (Put v) prev = v"
| "apply_setarg (KeepIfSame v) prev = (if strict_eq prev (JStr v) then prev else JStr v)"
| "apply_setarg Flip prev = JBool (\<not> Boolean prev)"

text \<open>
  \<open>hooks\<close> is the state as the last render saw it: what the handlers read through their
  closures and what the page shows. A setter does not change it: it queues an update, and
  the next render applies the queue in order. The three refs keep their value across
  renders and are assigned directly.
\<close>

record component =
  hooks :: "slot \<Rightarrow> jsval"
  updates :: "(slot \<times> setarg) list"
  toastTimer :: nat
  disposablesRef :: "nat option list"
  diffEditorRef :: "nat option"

definition setState :: "slot \<Rightarrow> setarg \<Rightarrow> component \<Rightarrow> component" where
  "setState f a c = c\<lparr>updates := updates c @ [(f, a)]\<rparr>"

definition apply_update :: "(slot \<Rightarrow> jsval) \<Rightarrow> slot \<times> setarg \<Rightarrow> slot \<Rightarrow> jsval" where
  "apply_update h u = h(fst u := apply_setarg (snd u) (h (fst u)))"

definition render :: "component \<Rightarrow> component" where
  "render c = c\<lparr>hooks := foldl apply_update (hooks c) (updates c), updates := []\<rparr>"

subsection \<open>\<^verbatim>\<open>useLocalStorageState\<close>\<close>

text \<open>
  The initial state is read from the store. The effect
  \<^verbatim>\<open>useEffect(() => writeStorage(key, value), [key, value])\<close> runs after the first render,
  and after a later render when \<^verbatim>\<open>Object.is\<close> tells the value from the one of the
  render before (the key never changes). \<open>effects old new\<close> lists the state variables
  whose effect runs after a render, in the order of the hooks.
\<close>

definition useLocalStorageState_init :: "storage option \<Rightarrow> slot \<Rightarrow> js_error + jsval" where
  "useLocalStorageState_init window f = readStorage window (storage_key f) (initialValue f)"

definition effects :: "(slot \<Rightarrow> jsval) \<Rightarrow> (slot \<Rightarrow> jsval) \<Rightarrow> slot list" where
  "effects old new = filter (\<lambda>f. \<not> Object_is (old f) (new f)) persisted"

fun run_effects :: "slot list \<Rightarrow> (slot \<Rightarrow> jsval) \<Rightarrow> storage \<Rightarrow> js_error + storage" where
  "run_effects [] h ls = Inr ls"
| "run_effects (f # fs) h ls = bind_js (writeStorage ls (storage_key f) (h f)) (run_effects fs h)"

text \<open>A render with its effects: the component and the store afterwards.\<close>

definition commit :: "component \<Rightarrow> storage \<Rightarrow> js_error + component \<times> storage" where
  "commit c ls =
     (let c' = render c in
      bind_js (run_effects (effects (hooks c) (hooks c')) (hooks c') ls) (\<lambda>ls'. Inr (c', ls')))"

text \<open>
  The state of the first render: the initialiser of each persisted state variable reads
  the store, and the toast starts as \<^verbatim>\<open>null\<close>.
\<close>

definition initial_hooks :: "storage option \<Rightarrow> js_error + (slot \<Rightarrow> jsval)" where
  "initial_hooks window =
     bind_js (useLocalStorageState_init window Original) (\<lambda>v1.
     bind_js (useLocalStorageState_init window Modified) (\<lambda>v2.
     bind_js (useLocalStorageState_init window Language) (\<lambda>v3.
     bind_js (useLocalStorageState_init window Theme) (\<lambda>v4.
     bind_js (useLocalStorageState_init window SideBySide) (\<lambda>v5.
     bind_js (useLocalStorageState_init window IgnoreTrimWhitespace) (\<lambda>v6.
     bind_js (useLocalStorageState_init window FontSize) (\<lambda>v7.
       Inr (\<lambda>f. case f of Original \<Rightarrow> v1 | Modified \<Rightarrow> v2 | Language \<Rightarrow> v3
              | Theme \<Rightarrow> v4 | SideBySide \<Rightarrow> v5 | IgnoreTrimWhitespace \<Rightarrow> v6
              | FontSize \<Rightarrow> v7 | Toast \<Rightarrow> JNull))))))))"

definition new_component :: "(slot \<Rightarrow> jsval) \<Rightarrow> component" where
  "new_component h =
     \<lparr>hooks = h, updates = [], toastTimer = 0, disposablesRef = [], diffEditorRef = None\<rparr>"

subsection \<open>The options handed to the diff editor\<close>

record options =
  renderSideBySide :: bool
  originalEditable :: bool
  ignoreTrimWhitespace :: bool
  automaticLayout :: bool
  fontSize :: jsnum
  minimap_enabled :: bool
  scrollBeyondLastLine :: bool
  verticalScrollbarSize :: nat
  horizontalScrollbarSize :: nat

text \<open>
  The body of the \<^verbatim>\<open>useMemo\<close>. \<^verbatim>\<open>Number(fontSize) || 14\<close> is \<^verbatim>\<open>Number(fontSize)\<close> when
  that is truthy and 14 otherwise; the conversion throws for a value that has no
  primitive.
\<close>

definition make_options :: "(slot \<Rightarrow> jsval) \<Rightarrow> js_error + options" where
  "make_options h =
     bind_js (Number (h FontSize)) (\<lambda>n.
       Inr \<lparr>renderSideBySide = Boolean (h SideBySide),
            originalEditable = True,
            ignoreTrimWhitespace = Boolean (h IgnoreTrimWhitespace),
            automaticLayout = True,
            fontSize = (if truthy_num n then n else Fin 14 0),
            minimap_enabled = False,
            scrollBeyondLastLine = False,
            verticalScrollbarSize = 10,
            horizontalScrollbarSize = 10\<rparr>)"

subsection \<open>\<^verbatim>\<open>showToast\<close> and the expiry of a toast\<close>

text \<open>
  \<^verbatim>\<open>if (toastTimer.current)\<close> tests a number: it holds unless the ref is 0, its
  initial value.
\<close>

definition showToast :: "jsstring \<Rightarrow> component \<Rightarrow> timers \<Rightarrow> component \<times> timers" where
  "showToast message c t =
     (let c1 = setState Toast (Put (JStr message)) c;
          t1 = (if toastTimer c1 \<noteq> 0 then clearTimeout t (toastTimer c1) else t);
          (h, t2) = setTimeout t1 1200
      in (c1\<lparr>toastTimer := h\<rparr>, t2))"

text \<open>The callback of the timer: \<^verbatim>\<open>() => setToast(null)\<close>.\<close>

definition toast_expired :: "component \<Rightarrow> component" where
  "toast_expired c = setState Toast (Put JNull) c"

text \<open>
  One millisecond passes: the clock advances, and every timer that is due leaves the
  table and runs its callback.
\<close>

definition due :: "timers \<Rightarrow> (nat \<times> nat) list" where
  "due t = filter (\<lambda>p. snd p \<le> clock t) (pending t)"

definition tick :: "component \<Rightarrow> timers \<Rightarrow> component \<times> timers" where
  "tick c t =
     (let t1 = t\<lparr>clock := Suc (clock t)\<rparr> in
      (fold (\<lambda>p. toast_expired) (due t1) c,
       t1\<lparr>pending := filter (\<lambda>p. \<not> snd p \<le> clock t1) (pending t1)\<rparr>))"

subsection \<open>\<^verbatim>\<open>handleMount\<close> and the listeners it registers\<close>

text \<open>
  \<^verbatim>\<open>d?.dispose?.()\<close> skips an entry that is absent; the entries pushed are the
  disposables the editor returned.
\<close>

definition dispose_all :: "nat option list \<Rightarrow> monaco \<Rightarrow> monaco" where
  "dispose_all ds m = fold (\<lambda>d m'. case d of None \<Rightarrow> m' | Some h \<Rightarrow> dispose h m') ds m"

definition handleMount :: "nat \<Rightarrow> component \<Rightarrow> monaco \<Rightarrow> component \<times> monaco" where
  "handleMount editor c m =
     (let c1 = c\<lparr>diffEditorRef := Some editor\<rparr>;
          m1 = dispose_all (disposablesRef c1) m;
          c2 = c1\<lparr>disposablesRef := []\<rparr>;
          (d1, m2) = onDidChangeModelContent m1 editor OriginalSide;
          (d2, m3) = onDidChangeModelContent m2 editor ModifiedSide
      in (c2\<lparr>disposablesRef := disposablesRef c2 @ [Some d1, Some d2]\<rparr>, m3))"

text \<open>
  The two listeners. Each reads the text of its side of the editor it was registered on
  and calls the setter of its state variable with the updater that keeps an equal value.
\<close>

definition original_listener :: "monaco \<Rightarrow> nat \<Rightarrow> component \<Rightarrow> component" where
  "original_listener m editor c =
     (let v = getValue m editor OriginalSide in setState Original (KeepIfSame v) c)"

definition modified_listener :: "monaco \<Rightarrow> nat \<Rightarrow> component \<Rightarrow> component" where
  "modified_listener m editor c =
     (let v = getValue m editor ModifiedSide in setState Modified (KeepIfSame v) c)"

definition run_listener :: "monaco \<Rightarrow> nat \<times> nat \<times> side \<Rightarrow> component \<Rightarrow> component" where
  "run_listener m l c =
     (case snd (snd l) of
        OriginalSide \<Rightarrow> original_listener m (fst (snd l)) c
      | ModifiedSide \<Rightarrow> modified_listener m (fst (snd l)) c)"

text \<open>
  The editor reports a change of content on one side: the listeners registered on that
  side of that editor run, in the order of their registration.
\<close>

definition listening :: "monaco \<Rightarrow> nat \<Rightarrow> side \<Rightarrow> (nat \<times> nat \<times> side) list" where
  "listening m editor sd = filter (\<lambda>l. snd l = (editor, sd)) (listeners m)"

definition content_changed :: "monaco \<Rightarrow> nat \<Rightarrow> side \<Rightarrow> component \<Rightarrow> component" where
  "content_changed m editor sd c = fold (run_listener m) (listening m editor sd) c"

subsection \<open>The handlers of the controls\<close>

text \<open>
  \<^verbatim>\<open>handleCopy\<close> is asynchronous. Up to its \<^verbatim>\<open>await\<close> it reads the text of the render
  it belongs to and starts the copy; it resumes with the outcome, at a later time and
  in whatever state the component then is, and shows the toast.
\<close>

definition copy_source :: "jsval \<Rightarrow> component \<Rightarrow> jsval" where
  "copy_source which c =
     (if strict_eq which (JStr (str ''original'')) then hooks c Original else hooks c Modified)"

definition handleCopy_start :: "jsval \<Rightarrow> component \<Rightarrow> navigator \<Rightarrow> js_error + bool \<times> navigator" where
  "handleCopy_start which c nav = (let text = copy_source which c in copyToClipboard nav text)"

definition handleCopy_resume :: "bool \<Rightarrow> component \<Rightarrow> timers \<Rightarrow> component \<times> timers" where
  "handleCopy_resume ok c t = showToast (if ok then str ''Copied'' else str ''Copy failed'') c t"

definition handleCopy ::
  "jsval \<Rightarrow> component \<Rightarrow> navigator \<Rightarrow> timers \<Rightarrow> js_error + component \<times> navigator \<times> timers" where
  "handleCopy which c nav t =
     bind_js (handleCopy_start which c nav) (\<lambda>r.
       let (c', t') = handleCopy_resume (fst r) c t in Inr (c', snd r, t'))"

definition handleSwap :: "component \<Rightarrow> component" where
  "handleSwap c =
     (let c1 = setState Original (Put (hooks c Modified)) c
      in setState Modified (Put (hooks c Original)) c1)"

definition handleReset :: "component \<Rightarrow> timers \<Rightarrow> component \<times> timers" where
  "handleReset c t =
     (let c1 = setState Original (Put (JStr SAMPLE_ORIGINAL)) c;
          c2 = setState Modified (Put (JStr SAMPLE_MODIFIED)) c1;
          c3 = setState Language (Put (JStr (str ''javascript''))) c2;
          c4 = setState Theme (Put (JStr (str ''vs-dark''))) c3;
          c5 = setState SideBySide (Put (JBool True)) c4;
          c6 = setState IgnoreTrimWhitespace (Put (JBool True)) c5;
          c7 = setState FontSize (Put (num 14)) c6
      in showToast (str ''Reset'') c7 t)"

text \<open>
  The \<^verbatim>\<open>onChange\<close> handlers of the controls. \<^verbatim>\<open>e.target.value\<close> is the string the
  control holds; for the font size that is \<open>number_input_value\<close> of what was entered.
\<close>

definition fontSize_onChange :: "jsstring \<Rightarrow> component \<Rightarrow> js_error + component" where
  "fontSize_onChange target_value c =
     bind_js (Number (JStr target_value)) (\<lambda>n. Inr (setState FontSize (Put (JNum n)) c))"

definition language_onChange :: "jsstring \<Rightarrow> component \<Rightarrow> component" where
  "language_onChange target_value c = setState Language (Put (JStr target_value)) c"

definition theme_onChange :: "jsstring \<Rightarrow> component \<Rightarrow> component" where
  "theme_onChange target_value c = setState Theme (Put (JStr target_value)) c"

definition sideBySide_onClick :: "component \<Rightarrow> component" where
  "sideBySide_onClick c = setState SideBySide Flip c"

definition ignoreTrimWhitespace_onClick :: "component \<Rightarrow> component" where
  "ignoreTrimWhitespace_onClick c = setState IgnoreTrimWhitespace Flip c"

subsection \<open>The cleanup when the component is removed\<close>

definition unmount :: "component \<Rightarrow> monaco \<Rightarrow> timers \<Rightarrow> component \<times> monaco \<times> timers" where
  "unmount c m t =
     (let m1 = dispose_all (disposablesRef c) m;
          c1 = c\<lparr>disposablesRef := []\<rparr>;
          t1 = (if toastTimer c1 \<noteq> 0 then clearTimeout t (toastTimer c1) else t)
      in (c1, m1, t1))"

section \<open>Runs, initial states and invariants\<close>

text \<open>The browser when the page loads: no timer pending, no listener registered.\<close>

definition no_timers :: "nat \<Rightarrow> timers" where
  "no_timers now = \<lparr>pending = [], next_timer = 1, clock = now\<rparr>"

definition no_listeners :: "(nat \<Rightarrow> side \<Rightarrow> jsstring) \<Rightarrow> monaco" where
  "no_listeners tx = \<lparr>listeners = [], next_handle = 0, texts = tx\<rparr>"

text \<open>
  The component owns the listeners of the table: each one was registered by
  \<open>handleMount\<close> and its disposable is in \<open>disposablesRef\<close>.
\<close>

definition owns :: "component \<Rightarrow> monaco \<Rightarrow> bool" where
  "owns c m = list_all (\<lambda>l. Some (fst l) \<in> set (disposablesRef c)) (listeners m)"

text \<open>
  The pending timers are the one \<open>toastTimer\<close> names, and there is at most one.
\<close>

definition toast_inv :: "component \<Rightarrow> timers \<Rightarrow> bool" where
  "toast_inv c t =
     (next_timer t \<noteq> 0 \<and> length (pending t) \<le> 1
      \<and> list_all (\<lambda>p. fst p = toastTimer c \<and> fst p \<noteq> 0) (pending t))"

text \<open>
  A run of the notification service: \<open>Show\<close> is a call of \<open>showToast\<close>, \<open>Tick\<close> the
  passing of a millisecond. React renders after each of them.
\<close>

datatype event = Show jsstring | Tick

fun step :: "event \<Rightarrow> component \<times> timers \<Rightarrow> component \<times> timers" where
  "step (Show msg) (c, t) = (let (c', t') = showToast msg c t in (render c', t'))"
| "step Tick (c, t) = (let (c', t') = tick c t in (render c', t'))"

definition run :: "event list \<Rightarrow> component \<times> timers \<Rightarrow> component \<times> timers" where
  "run evs s = fold step evs s"

text \<open>The number of timer callbacks that run during a run.\<close>

fun firings :: "event list \<Rightarrow> component \<times> timers \<Rightarrow> nat" where
  "firings [] s = 0"
| "firings (Show msg # evs) s = firings evs (step (Show msg) s)"
| "firings (Tick # evs) s =
     length (due ((snd s)\<lparr>clock := Suc (clock (snd s))\<rparr>)) + firings evs (step Tick s)"

text \<open>The message on the page.\<close>

definition visible_toast :: "component \<times> timers \<Rightarrow> jsval" where
  "visible_toast s = hooks (fst s) Toast"

text \<open>What the claims observe of a handler: given as functions of their own.\<close>

definition slot_of :: "side \<Rightarrow> slot" where
  "slot_of sd = (case sd of OriginalSide \<Rightarrow> Original | ModifiedSide \<Rightarrow> Modified)"

definition fontSize_after :: "jsstring \<Rightarrow> component \<Rightarrow> js_error + jsval" where
  "fontSize_after target_value c =
     bind_js (fontSize_onChange target_value c) (\<lambda>c'. Inr (hooks (render c') FontSize))"

definition options_fontSize :: "(slot \<Rightarrow> jsval) \<Rightarrow> js_error + jsnum" where
  "options_fontSize h = bind_js (make_options h) (\<lambda>opts. Inr (fontSize opts))"

definition fontSize_handed_on :: "jsstring \<Rightarrow> component \<Rightarrow> js_error + jsnum" where
  "fontSize_handed_on target_value c =
     bind_js (fontSize_onChange target_value c) (\<lambda>c'. options_fontSize (hooks (render c')))"

definition is_positive :: "jsnum \<Rightarrow> bool" where
  "is_positive x = (case x of Fin m e \<Rightarrow> 0 < m | PosInf \<Rightarrow> True | _ \<Rightarrow> False)"

text \<open>
  The values of the persisted fields: text, booleans and finite numbers (and
  \<^verbatim>\<open>null\<close>), the primitive values JSON can write. A finite number is in normal form.
\<close>

fun valid_value :: "jsval \<Rightarrow> bool" where
  "valid_value JNull = True"
| "valid_value (JBool b) = True"
| "valid_value (JStr s) = True"
| "valid_value (JNum (Fin m e)) = (if m = 0 then e = 0 else m mod 10 \<noteq> 0)"
| "valid_value v = False"

text \<open>A write followed by a read of the same key, as a fresh load of the page does it.\<close>

definition write_then_read :: "storage \<Rightarrow> jsstring \<Rightarrow> jsval \<Rightarrow> jsval \<Rightarrow> js_error + jsval" where
  "write_then_read ls key v fallback =
     bind_js (writeStorage ls key v) (\<lambda>ls'. readStorage (Some ls') key fallback)"

text \<open>\<open>handleMount\<close> called twice in succession, with the editor of each call.\<close>

definition mount_twice :: "nat \<Rightarrow> nat \<Rightarrow> component \<Rightarrow> monaco \<Rightarrow> component \<times> monaco" where
  "mount_twice e1 e2 c m = (let (c1, m1) = handleMount e1 c m in handleMount e2 c1 m1)"

text \<open>
  The life of the page, for the claims about subscriptions and teardown. What happens to
  the component between its mounting and its removal is a sequence of actions: the diff
  editor mounts and calls \<open>handleMount\<close>, the text of a side changes and the editor
  notifies its listeners, a toast is shown or a millisecond passes (\<open>Notify\<close>), a
  handler calls a state setter, React renders. Each handler of the source is such a
  sequence: \<open>handleReset\<close> is seven setter calls and a toast, \<open>handleSwap\<close> two setter
  calls, the resumption of \<open>handleCopy\<close> a toast.
\<close>

record page =
  comp :: component
  mon :: monaco
  tms :: timers

datatype action = Mounted nat | TextChanged nat side jsstring | Notify event
  | SetterCalled slot setarg | Rendered

definition set_text :: "nat \<Rightarrow> side \<Rightarrow> jsstring \<Rightarrow> monaco \<Rightarrow> monaco" where
  "set_text ed sd v m = m\<lparr>texts := (texts m)(ed := (texts m ed)(sd := v))\<rparr>"

fun act :: "action \<Rightarrow> page \<Rightarrow> page" where
  "act (Mounted ed) p =
     (let (c, m) = handleMount ed (comp p) (mon p) in p\<lparr>comp := c, mon := m\<rparr>)"
| "act (TextChanged ed sd v) p =
     (let m = set_text ed sd v (mon p)
      in p\<lparr>comp := content_changed m ed sd (comp p), mon := m\<rparr>)"
| "act (Notify e) p = (let (c, t) = step e (comp p, tms p) in p\<lparr>comp := c, tms := t\<rparr>)"
| "act (SetterCalled f a) p = p\<lparr>comp := setState f a (comp p)\<rparr>"
| "act Rendered p = p\<lparr>comp := render (comp p)\<rparr>"

definition perform :: "action list \<Rightarrow> page \<Rightarrow> page" where
  "perform as p = fold act as p"

definition fresh_page :: "(slot \<Rightarrow> jsval) \<Rightarrow> (nat \<Rightarrow> side \<Rightarrow> jsstring) \<Rightarrow> nat \<Rightarrow> page" where
  "fresh_page h tx now = \<lparr>comp = new_component h, mon = no_listeners tx, tms = no_timers now\<rparr>"

text \<open>The cleanup of the component, on the page.\<close>

definition teardown :: "page \<Rightarrow> page" where
  "teardown p =
     (let (c, m, t) = unmount (comp p) (mon p) (tms p) in \<lparr>comp = c, mon = m, tms = t\<rparr>)"

section \<open>The bound of the JSON parser\<close>

text \<open>
  Every parser leaves less input than it was given, so the nesting of the calls is
  bounded by the length of the text: beyond twice that length more fuel changes nothing,
  and \<open>JSON_parse\<close> never fails for lack of it.
\<close>

lemma length_skip_ws: "length (skip_ws s) \<le> length s"
  by (simp add: skip_ws_def length_dropWhile_le)

lemma parse_chars_shorter: "parse_chars s = Some (t, r) \<Longrightarrow> length r < length s"
proof (induction s arbitrary: t r rule: parse_chars.induct)
  case 1
  then show ?case by simp
next
  case (2 c cs)
  then show ?case
    by (fastforce split: if_splits list.splits option.splits)
qed

lemma parse_exponent_shorter: "parse_exponent s = Some (x, r) \<Longrightarrow> length r \<le> length s"
  using length_dropWhile_le [of is_digit "tl s"] length_dropWhile_le [of is_digit "tl (tl s)"]
  by (auto simp add: parse_exponent_def Let_def split: list.splits if_splits prod.splits)

lemma parse_fraction_shorter: "parse_fraction s = Some (f, r) \<Longrightarrow> length r \<le> length s"
  using length_dropWhile_le [of is_digit "tl s"]
  by (auto simp add: parse_fraction_def split: list.splits if_splits)


lemma skip_ws_Cons_shorter: "skip_ws s = c # r \<Longrightarrow> length r < length s"
  using length_skip_ws [of s] by simp

lemma parse_unsigned_shorter: "parse_unsigned s = Some (x, r) \<Longrightarrow> length r < length s"
proof (cases s)
  case Nil
  assume "parse_unsigned s = Some (x, r)"
  then show ?thesis using Nil by (simp add: parse_unsigned_def)
next
  case (Cons c cs)
  assume a: "parse_unsigned s = Some (x, r)"
  let ?r1 = "if c = 48 then cs else dropWhile is_digit s"
  have d: "is_digit c"
    using a Cons by (auto simp add: parse_unsigned_def split: if_splits)
  have "dropWhile is_digit s = dropWhile is_digit cs"
    using d Cons by simp
  then have r1: "length ?r1 < length s"
    using length_dropWhile_le [of is_digit cs] Cons by simp
  obtain fp r2 where f: "parse_fraction ?r1 = Some (fp, r2)"
    using a Cons d by (auto simp add: parse_unsigned_def Let_def split: option.splits if_splits)
  have e: "\<exists>y. parse_exponent r2 = Some (y, r)"
    using a Cons d f by (auto simp add: parse_unsigned_def Let_def split: option.splits if_splits)
  then obtain y where e': "parse_exponent r2 = Some (y, r)" by blast
  from parse_fraction_shorter [OF f] parse_exponent_shorter [OF e'] r1 show ?thesis
    by simp
qed

lemma parse_number_shorter: "parse_number s = Some (x, r) \<Longrightarrow> length r < length s"
proof (cases s)
  case Nil
  assume "parse_number s = Some (x, r)"
  then show ?thesis using Nil by (simp add: parse_number_def)
next
  case (Cons c cs)
  assume a: "parse_number s = Some (x, r)"
  show ?thesis
  proof (cases "c = 45")
    case True
    then obtain y where "parse_unsigned cs = Some (y, r)"
      using a Cons by (auto simp add: parse_number_def split: option.splits)
    from parse_unsigned_shorter [OF this] Cons show ?thesis by simp
  next
    case False
    then have "parse_unsigned s = Some (x, r)"
      using a Cons by (simp add: parse_number_def)
    then show ?thesis by (rule parse_unsigned_shorter)
  qed
qed

lemma parse_literal_shorter: "parse_literal s = Some (v, r) \<Longrightarrow> length r < length s"
  by (cases s) (auto simp add: parse_literal_def str_def split: if_splits)


lemma parse_shorter:
  "(\<forall>s v r. parse_value n s = Some (v, r) \<longrightarrow> length r < length s)
   \<and> (\<forall>acc s v r. parse_elements n acc s = Some (v, r) \<longrightarrow> length r < length s)
   \<and> (\<forall>acc s v r. parse_members n acc s = Some (v, r) \<longrightarrow> length r < length s)"
proof (induction n)
  case 0
  show ?case
    by (simp add: parse_value.simps [of 0] parse_elements.simps [of 0] parse_members.simps [of 0])
next
  case (Suc n)
  have V: "\<And>s v r. parse_value n s = Some (v, r) \<Longrightarrow> length r < length s"
    and E: "\<And>acc s v r. parse_elements n acc s = Some (v, r) \<Longrightarrow> length r < length s"
    and M: "\<And>acc s v r. parse_members n acc s = Some (v, r) \<Longrightarrow> length r < length s"
    using Suc.IH by blast+
  have v: "length r < length s" if a: "parse_value (Suc n) s = Some (v, r)" for s v r
  proof (cases "skip_ws s")
    case Nil
    then show ?thesis using a by (simp add: parse_value.simps [of "Suc n"])
  next
    case (Cons c cs)
    note l = skip_ws_Cons_shorter [OF Cons]
    show ?thesis
      using a Cons l
      by (auto simp add: parse_value.simps [of "Suc n"]
          split: if_splits list.splits option.splits
          dest!: skip_ws_Cons_shorter E M parse_chars_shorter parse_number_shorter
            parse_literal_shorter)
  qed
  have e: "length r < length s" if a: "parse_elements (Suc n) acc s = Some (v, r)" for acc s v r
    using a
    by (auto simp add: parse_elements.simps [of "Suc n"]
        split: if_splits list.splits option.splits
        dest!: skip_ws_Cons_shorter V E)
  have m: "length r < length s" if a: "parse_members (Suc n) acc s = Some (v, r)" for acc s v r
    using a
    by (auto simp add: parse_members.simps [of "Suc n"]
        split: if_splits list.splits option.splits
        dest!: skip_ws_Cons_shorter V M parse_chars_shorter)
  show ?case
    using v e m by blast
qed


lemma more_fuel_same:
  "(\<forall>s. 2 * length s < n \<longrightarrow> parse_value (Suc n) s = parse_value n s)
   \<and> (\<forall>acc s. 2 * length s + 1 < n \<longrightarrow> parse_elements (Suc n) acc s = parse_elements n acc s)
   \<and> (\<forall>acc s. 2 * length s + 1 < n \<longrightarrow> parse_members (Suc n) acc s = parse_members n acc s)"
proof (induction n)
  case 0
  show ?case by simp
next
  case (Suc n)
  have V: "\<And>s. 2 * length s < n \<Longrightarrow> parse_value (Suc n) s = parse_value n s"
    and E: "\<And>acc s. 2 * length s + 1 < n \<Longrightarrow> parse_elements (Suc n) acc s = parse_elements n acc s"
    and M: "\<And>acc s. 2 * length s + 1 < n \<Longrightarrow> parse_members (Suc n) acc s = parse_members n acc s"
    using Suc.IH by blast+
  have v: "parse_value (Suc (Suc n)) s = parse_value (Suc n) s" if a: "2 * length s < Suc n" for s
  proof (cases "skip_ws s")
    case Nil
    then show ?thesis
      by (simp add: parse_value.simps [of "Suc (Suc n)" s] parse_value.simps [of "Suc n" s])
  next
    case (Cons c cs)
    have l: "2 * length cs + 1 < n"
      using skip_ws_Cons_shorter [OF Cons] a by simp
    show ?thesis
      using Cons E [OF l] M [OF l]
      by (simp add: parse_value.simps [of "Suc (Suc n)" s] parse_value.simps [of "Suc n" s]
          split: list.splits)
  qed
  have e: "parse_elements (Suc (Suc n)) acc s = parse_elements (Suc n) acc s"
    if a: "2 * length s + 1 < Suc n" for acc s
  proof -
    have v0: "parse_value (Suc n) s = parse_value n s"
      using V a by simp
    show ?thesis
    proof (cases "parse_value n s")
      case None
      then show ?thesis
        using v0
        by (simp add: parse_elements.simps [of "Suc (Suc n)" acc s]
            parse_elements.simps [of "Suc n" acc s])
    next
      case (Some p)
      obtain x r where p: "p = (x, r)" by (cases p)
      have lr: "length r < length s"
        using parse_shorter [of n] Some p by blast
      show ?thesis
      proof (cases "skip_ws r")
        case Nil
        then show ?thesis
          using v0 Some p
          by (simp add: parse_elements.simps [of "Suc (Suc n)" acc s]
              parse_elements.simps [of "Suc n" acc s])
      next
        case (Cons c r')
        have l: "2 * length r' + 1 < n"
          using skip_ws_Cons_shorter [OF Cons] lr a by simp
        show ?thesis
          using v0 Some p Cons E [OF l]
          by (simp add: parse_elements.simps [of "Suc (Suc n)" acc s]
              parse_elements.simps [of "Suc n" acc s])
      qed
    qed
  qed
  have m: "parse_members (Suc (Suc n)) acc s = parse_members (Suc n) acc s"
    if a: "2 * length s + 1 < Suc n" for acc s
  proof (cases "skip_ws s")
    case Nil
    then show ?thesis
      by (simp add: parse_members.simps [of "Suc (Suc n)" acc s]
          parse_members.simps [of "Suc n" acc s])
  next
    case s1: (Cons q r)
    note l1 = skip_ws_Cons_shorter [OF s1]
    show ?thesis
    proof (cases "parse_chars r")
      case None
      then show ?thesis
        using s1
        by (simp add: parse_members.simps [of "Suc (Suc n)" acc s]
            parse_members.simps [of "Suc n" acc s])
    next
      case (Some p)
      obtain k r1 where p: "p = (k, r1)" by (cases p)
      have l2: "length r1 < length r"
        using parse_chars_shorter Some p by blast
      show ?thesis
      proof (cases "skip_ws r1")
        case Nil
        then show ?thesis
          using s1 Some p
          by (simp add: parse_members.simps [of "Suc (Suc n)" acc s]
              parse_members.simps [of "Suc n" acc s])
      next
        case s2: (Cons colon r2)
        note l3 = skip_ws_Cons_shorter [OF s2]
        have v0: "parse_value (Suc n) r2 = parse_value n r2"
          using V [of r2] l1 l2 l3 a by simp
        show ?thesis
        proof (cases "parse_value n r2")
          case None
          then show ?thesis
            using s1 Some p s2 v0
            by (simp add: parse_members.simps [of "Suc (Suc n)" acc s]
                parse_members.simps [of "Suc n" acc s])
        next
          case v1: (Some p')
          obtain x r3 where p': "p' = (x, r3)" by (cases p')
          have l4: "length r3 < length r2"
            using parse_shorter [of n] v1 p' by blast
          show ?thesis
          proof (cases "skip_ws r3")
            case Nil
            then show ?thesis
              using s1 Some p s2 v0 v1 p'
              by (simp add: parse_members.simps [of "Suc (Suc n)" acc s]
                  parse_members.simps [of "Suc n" acc s])
          next
            case s3: (Cons c r4)
            have l: "2 * length r4 + 1 < n"
              using skip_ws_Cons_shorter [OF s3] l1 l2 l3 l4 a by simp
            show ?thesis
              using s1 Some p s2 v0 v1 p' s3 M [OF l]
              by (simp add: parse_members.simps [of "Suc (Suc n)" acc s]
                  parse_members.simps [of "Suc n" acc s])
          qed
        qed
      qed
    qed
  qed
  show ?case
    using v e m by blast
qed

lemma enough_fuel:
  assumes "2 * length s < n"
  shows "parse_value (n + k) s = parse_value n s"
proof (induction k)
  case 0
  show ?case by simp
next
  case (Suc k)
  have "2 * length s < n + k" using assms by simp
  then have "parse_value (Suc (n + k)) s = parse_value (n + k) s"
    using more_fuel_same [of "n + k"] by blast
  then show ?case using Suc.IH by simp
qed

lemma JSON_parse_any_fuel:
  assumes "2 * length s + 2 \<le> n"
  shows "JSON_parse s =
    (case parse_value n s of
       None \<Rightarrow> Inl SyntaxError
     | Some (v, r) \<Rightarrow> if skip_ws r = [] then Inr v else Inl SyntaxError)"
proof -
  have e: "2 * length s + 2 + (n - (2 * length s + 2)) = n"
    using assms by simp
  have "parse_value (2 * length s + 2 + (n - (2 * length s + 2))) s = parse_value (2 * length s + 2) s"
    by (rule enough_fuel) simp
  then have "parse_value n s = parse_value (2 * length s + 2) s"
    unfolding e .
  then show ?thesis
    by (simp add: JSON_parse_def)
qed

section \<open>The persisted field store\<close>

lemma readStorage_cases:
  "readStorage (Some ls) key fb =
     Inr (if denied ls then fb
          else case map_of (items ls) key of
                 None \<Rightarrow> fb
               | Some t \<Rightarrow> (case JSON_parse t of Inl e \<Rightarrow> fb | Inr v \<Rightarrow> v))"
  by (simp add: readStorage_def try_catch_def bind_js_def getItem_def split: option.splits sum.splits)

lemma writeStorage_cases:
  "writeStorage ls key v =
     Inr (if denied ls then ls
          else if has_room ls key (stored_text v)
          then ls\<lparr>items := AList.update key (stored_text v) (items ls)\<rparr>
          else ls)"
  by (simp add: writeStorage_def try_catch_def setItem_def)

lemma parse_bad: "JSON_parse (str ''{bad'') = Inl SyntaxError"
  by (simp add: JSON_parse_def str_def parse_value.simps parse_members.simps skip_ws_def
      is_json_ws_def)

text \<open>
  Claim C4. \<open>readStorage\<close> never throws: without a window it returns the fallback, and
  with one it returns the fallback when storage is disabled, when the key is absent and
  when the stored text does not parse, and the parsed value otherwise. \<open>writeStorage\<close>
  never throws either: when storage is disabled or full it returns normally and leaves
  the store as it was.
\<close>

theorem storage_failures_absorbed:
  "readStorage None key fb = Inr fb
   \<and> readStorage (Some ls) key fb =
       Inr (if denied ls then fb
            else case map_of (items ls) key of
                   None \<Rightarrow> fb
                 | Some t \<Rightarrow> (case JSON_parse t of Inl e \<Rightarrow> fb | Inr v \<Rightarrow> v))
   \<and> writeStorage ls key v =
       Inr (if denied ls then ls
            else if has_room ls key (stored_text v)
            then ls\<lparr>items := AList.update key (stored_text v) (items ls)\<rparr>
            else ls)"
  using readStorage_cases writeStorage_cases by (simp add: readStorage_def)

theorem storage_failures_absorbed_witness:
  "readStorage (Some \<lparr>items = [(str ''k'', str ''{bad'')], denied = False, quota = Some 3\<rparr>)
       (str ''k'') (num 14) = Inr (num 14)
   \<and> readStorage (Some \<lparr>items = [], denied = False, quota = None\<rparr>) (str ''k'') (num 14)
       = Inr (num 14)
   \<and> writeStorage \<lparr>items = [], denied = False, quota = Some 3\<rparr> (str ''k'') (JBool True)
       = Inr \<lparr>items = [], denied = False, quota = Some 3\<rparr>
   \<and> writeStorage \<lparr>items = [], denied = True, quota = None\<rparr> (str ''k'') (JBool True)
       = Inr \<lparr>items = [], denied = True, quota = None\<rparr>"
  using parse_bad
    storage_failures_absorbed [of "str ''k''" "num 14"
      "\<lparr>items = [(str ''k'', str ''{bad'')], denied = False, quota = Some 3\<rparr>" "JBool True"]
    storage_failures_absorbed [of "str ''k''" "num 14"
      "\<lparr>items = [], denied = False, quota = None\<rparr>" "JBool True"]
    storage_failures_absorbed [of "str ''k''" "num 14"
      "\<lparr>items = [], denied = False, quota = Some 3\<rparr>" "JBool True"]
    storage_failures_absorbed [of "str ''k''" "num 14"
      "\<lparr>items = [], denied = True, quota = None\<rparr>" "JBool True"]
  by (simp add: has_room_def stored_text_def storage_size_def str_def)

text \<open>The initialisers of the state never throw, whatever the store holds.\<close>

lemma initial_hooks_returns: "\<exists>h. initial_hooks window = Inr h"
proof (cases window)
  case None
  have "\<And>key fb. readStorage None key fb = Inr fb"
    by (simp add: readStorage_def)
  then show ?thesis
    using None by (simp add: initial_hooks_def useLocalStorageState_init_def bind_js_def)
next
  case (Some ls)
  then show ?thesis
    by (simp add: initial_hooks_def useLocalStorageState_init_def readStorage_cases bind_js_def)
qed

section \<open>State updates and renders\<close>

lemma hooks_setState [simp]: "hooks (setState f a c) = hooks c"
  by (simp add: setState_def)

lemma updates_setState [simp]: "updates (setState f a c) = updates c @ [(f, a)]"
  by (simp add: setState_def)

lemma toastTimer_setState [simp]: "toastTimer (setState f a c) = toastTimer c"
  by (simp add: setState_def)

lemma disposablesRef_setState [simp]: "disposablesRef (setState f a c) = disposablesRef c"
  by (simp add: setState_def)

lemma hooks_render: "hooks (render c) = foldl apply_update (hooks c) (updates c)"
  by (simp add: render_def)

lemma showToast_hooks [simp]: "hooks (fst (showToast msg c t)) = hooks c"
  by (simp add: showToast_def setTimeout_def Let_def split: prod.splits)

lemma showToast_updates [simp]:
  "updates (fst (showToast msg c t)) = updates c @ [(Toast, Put (JStr msg))]"
  by (simp add: showToast_def setTimeout_def Let_def split: prod.splits)

lemma showToast_timer:
  "toastTimer (fst (showToast msg c t)) = next_timer t
   \<and> pending (snd (showToast msg c t)) =
       (if toastTimer c \<noteq> 0 then filter (\<lambda>p. fst p \<noteq> toastTimer c) (pending t) else pending t)
       @ [(next_timer t, clock t + 1200)]
   \<and> next_timer (snd (showToast msg c t)) = Suc (next_timer t)
   \<and> clock (snd (showToast msg c t)) = clock t"
  by (simp add: showToast_def setTimeout_def clearTimeout_def Let_def split: prod.splits)

section \<open>Reset\<close>

lemma reset_hooks:
  "foldl apply_update h
     (us @ [(Original, Put (JStr SAMPLE_ORIGINAL)), (Modified, Put (JStr SAMPLE_MODIFIED)),
        (Language, Put (JStr (str ''javascript''))), (Theme, Put (JStr (str ''vs-dark''))),
        (SideBySide, Put (JBool True)), (IgnoreTrimWhitespace, Put (JBool True)),
        (FontSize, Put (num 14)), (Toast, Put (JStr (str ''Reset'')))])
   = initialValue(Toast := JStr (str ''Reset''))"
proof
  fix f
  show "foldl apply_update h
     (us @ [(Original, Put (JStr SAMPLE_ORIGINAL)), (Modified, Put (JStr SAMPLE_MODIFIED)),
        (Language, Put (JStr (str ''javascript''))), (Theme, Put (JStr (str ''vs-dark''))),
        (SideBySide, Put (JBool True)), (IgnoreTrimWhitespace, Put (JBool True)),
        (FontSize, Put (num 14)), (Toast, Put (JStr (str ''Reset'')))]) f
   = (initialValue(Toast := JStr (str ''Reset''))) f"
    by (cases f) (simp_all add: apply_update_def)
qed

lemma handleReset_updates:
  "updates (fst (handleReset c t)) =
     updates c @ [(Original, Put (JStr SAMPLE_ORIGINAL)), (Modified, Put (JStr SAMPLE_MODIFIED)),
        (Language, Put (JStr (str ''javascript''))), (Theme, Put (JStr (str ''vs-dark''))),
        (SideBySide, Put (JBool True)), (IgnoreTrimWhitespace, Put (JBool True)),
        (FontSize, Put (num 14)), (Toast, Put (JStr (str ''Reset'')))]"
  by (simp add: handleReset_def Let_def)

lemma handleReset_hooks: "hooks (fst (handleReset c t)) = hooks c"
  by (simp add: handleReset_def Let_def)

lemma handleReset_render:
  "hooks (render (fst (handleReset c t))) = initialValue(Toast := JStr (str ''Reset''))"
  unfolding hooks_render handleReset_updates handleReset_hooks by (rule reset_hooks)

text \<open>
  Claim C5. Whatever the state before (the values on the page and the updates still
  queued), \<open>handleReset\<close> leaves the rendered state untouched while it runs, and the
  render that follows shows the two sample texts, \<^verbatim>\<open>javascript\<close>, \<^verbatim>\<open>vs-dark\<close>, side
  by side, trimmed whitespace ignored, font size 14 and the toast \<^verbatim>\<open>Reset\<close>, with
  nothing left in the queue; the toast's timer is pending and due 1200 ms later. No
  render stands between the old state and the reset one.
\<close>

theorem handleReset_restores_defaults:
  "hooks (fst (handleReset c t)) = hooks c
   \<and> hooks (render (fst (handleReset c t))) Original = JStr SAMPLE_ORIGINAL
   \<and> hooks (render (fst (handleReset c t))) Modified = JStr SAMPLE_MODIFIED
   \<and> hooks (render (fst (handleReset c t))) Language = JStr (str ''javascript'')
   \<and> hooks (render (fst (handleReset c t))) Theme = JStr (str ''vs-dark'')
   \<and> hooks (render (fst (handleReset c t))) SideBySide = JBool True
   \<and> hooks (render (fst (handleReset c t))) IgnoreTrimWhitespace = JBool True
   \<and> hooks (render (fst (handleReset c t))) FontSize = num 14
   \<and> hooks (render (fst (handleReset c t))) Toast = JStr (str ''Reset'')
   \<and> updates (render (fst (handleReset c t))) = []
   \<and> last (pending (snd (handleReset c t)))
       = (toastTimer (fst (handleReset c t)), clock t + 1200)"
proof -
  have p: "last (pending (snd (handleReset c t)))
       = (toastTimer (fst (handleReset c t)), clock t + 1200)"
    by (simp add: handleReset_def Let_def showToast_timer)
  have u: "updates (render (fst (handleReset c t))) = []"
    by (simp add: render_def)
  show ?thesis
    using p u by (simp add: handleReset_render handleReset_hooks)
qed

theorem handleReset_restores_defaults_witness:
  "hooks (render (fst (handleReset
      \<lparr>hooks = (\<lambda>f. JStr (str ''changed'')), updates = [(FontSize, Put (num 20))],
       toastTimer = 0, disposablesRef = [], diffEditorRef = None\<rparr> (no_timers 0)))) FontSize
     = num 14
   \<and> hooks (render (fst (handleReset
      \<lparr>hooks = (\<lambda>f. JStr (str ''changed'')), updates = [(FontSize, Put (num 20))],
       toastTimer = 0, disposablesRef = [], diffEditorRef = None\<rparr> (no_timers 0)))) Toast
     = JStr (str ''Reset'')
   \<and> pending (snd (handleReset
      \<lparr>hooks = (\<lambda>f. JStr (str ''changed'')), updates = [(FontSize, Put (num 20))],
       toastTimer = 0, disposablesRef = [], diffEditorRef = None\<rparr> (no_timers 0)))
     = [(1, 1200)]"
  using handleReset_restores_defaults [of
      "\<lparr>hooks = (\<lambda>f. JStr (str ''changed'')), updates = [(FontSize, Put (num 20))],
       toastTimer = 0, disposablesRef = [], diffEditorRef = None\<rparr>" "no_timers 0"]
  by (simp add: handleReset_def Let_def showToast_timer no_timers_def)

section \<open>Font size\<close>

lemma put_last:
  "foldl apply_update h (us @ [(f, Put v)]) f = v"
  by (simp add: apply_update_def)

lemma fontSize_after_eq: "fontSize_after s c = Inr (JNum (StringToNumber s))"
  by (simp add: fontSize_after_def fontSize_onChange_def bind_js_def hooks_render apply_update_def)

lemma options_fontSize_eq:
  "options_fontSize h =
     (case Number (h FontSize) of
        Inl e \<Rightarrow> Inl e
      | Inr n \<Rightarrow> Inr (if truthy_num n then n else Fin 14 0))"
  by (simp add: options_fontSize_def make_options_def bind_js_def split: sum.splits)

lemma StringToNumber_abc: "StringToNumber (str ''abc'') = NaN"
  by (simp add: StringToNumber_def str_def trim_def is_ws_def str_nondecimal_def str_decimal_def
      str_unsigned_decimal_def is_digit_def)

lemma clearing_stores_zero: "fontSize_after [] c = Inr (JNum (Fin 0 0))"
  by (simp add: fontSize_after_eq StringToNumber_def trim_def)

text \<open>
  What the number control hands over is never converted to \<^verbatim>\<open>NaN\<close>: a valid
  floating-point number is a decimal literal of \<^verbatim>\<open>StringToNumber\<close>, and the empty string
  is converted to zero.
\<close>

lemma digit_not_ws: "is_digit c \<Longrightarrow> \<not> is_ws c"
  by (simp add: is_digit_def is_ws_def)

lemma all_digits_no_ws: "all_digits r \<Longrightarrow> list_all (\<lambda>c. \<not> is_ws c) r"
  by (auto simp add: all_digits_def list_all_iff digit_not_ws)

lemma valid_exponent_no_ws:
  assumes "valid_exponent r"
  shows "list_all (\<lambda>c. \<not> is_ws c) r"
proof (cases r)
  case Nil
  then show ?thesis by simp
next
  case (Cons c r1)
  note c = Cons
  have cw: "\<not> is_ws c"
    using assms c by (auto simp add: valid_exponent_def is_ws_def)
  show ?thesis
  proof (cases r1)
    case Nil
    then show ?thesis using assms c by (simp add: valid_exponent_def)
  next
    case (Cons d r2)
    show ?thesis
    proof (cases "d = 45 \<or> d = 43")
      case True
      have "all_digits r2"
        using assms c Cons True by (auto simp add: valid_exponent_def)
      from all_digits_no_ws [OF this] True show ?thesis
        using c Cons cw by (auto simp add: is_ws_def)
    next
      case False
      have "all_digits r1"
        using assms c Cons False by (auto simp add: valid_exponent_def)
      from all_digits_no_ws [OF this] show ?thesis
        using c cw by simp
    qed
  qed
qed

lemma valid_exponent_str: "valid_exponent r \<Longrightarrow> \<exists>x. str_exponent r = Some x"
  by (auto simp add: valid_exponent_def str_exponent_def split: list.splits if_splits)

lemma takeWhile_no_ws: "list_all (\<lambda>c. \<not> is_ws c) (takeWhile is_digit u)"
  by (auto simp add: list_all_iff digit_not_ws dest: set_takeWhileD)

lemma valid_unsigned_no_ws:
  assumes "valid_unsigned u"
  shows "list_all (\<lambda>c. \<not> is_ws c) u"
proof -
  have r: "list_all (\<lambda>c. \<not> is_ws c) (dropWhile is_digit u)"
  proof (cases "dropWhile is_digit u")
    case Nil
    show ?thesis unfolding Nil by simp
  next
    case (Cons c r2)
    show ?thesis
    proof (cases "c = 46")
      case True
      have e: "valid_exponent (dropWhile is_digit r2)"
        using assms Cons True by (simp add: valid_unsigned_def Let_def)
      have "list_all (\<lambda>c. \<not> is_ws c) (takeWhile is_digit r2 @ dropWhile is_digit r2)"
        using valid_exponent_no_ws [OF e] takeWhile_no_ws [of r2]
        by (simp del: takeWhile_dropWhile_id)
      then have "list_all (\<lambda>c. \<not> is_ws c) r2"
        by simp
      then show ?thesis
        using Cons True by (simp add: is_ws_def)
    next
      case False
      have e: "valid_exponent (dropWhile is_digit u)"
        using assms Cons False by (simp add: valid_unsigned_def Let_def)
      from valid_exponent_no_ws [OF e] show ?thesis .
    qed
  qed
  have "list_all (\<lambda>c. \<not> is_ws c) (takeWhile is_digit u @ dropWhile is_digit u)"
    using r takeWhile_no_ws [of u] by (simp del: takeWhile_dropWhile_id)
  then show ?thesis
    by simp
qed

lemma trim_no_ws:
  assumes "list_all (\<lambda>c. \<not> is_ws c) s"
  shows "trim s = s"
proof -
  have a: "\<And>xs. list_all (\<lambda>c. \<not> is_ws c) xs \<Longrightarrow> dropWhile is_ws xs = xs"
  proof -
    fix xs :: jsstring
    assume "list_all (\<lambda>c. \<not> is_ws c) xs"
    then show "dropWhile is_ws xs = xs"
      by (cases xs) simp_all
  qed
  have b: "list_all (\<lambda>c. \<not> is_ws c) (rev s)"
    using assms by (simp add: list_all_iff)
  show ?thesis
    by (simp add: trim_def a [OF assms] a [OF b])
qed

lemma valid_unsigned_str:
  assumes "valid_unsigned u"
  shows "\<exists>m e. str_unsigned_decimal u = Some (Fin m e)"
proof -
  have d: "\<And>m e. \<exists>m' e'. dec m e = Fin m' e'"
    by (simp add: dec_def split: prod.splits)
  have n: "u \<noteq> str ''Infinity''"
    using assms by (auto simp add: valid_unsigned_def str_def is_digit_def valid_exponent_def)
  show ?thesis
  proof (cases "dropWhile is_digit u")
    case Nil
    have ip: "takeWhile is_digit u \<noteq> []"
      using assms unfolding valid_unsigned_def Let_def Nil by simp
    show ?thesis
      unfolding str_unsigned_decimal_def Let_def Nil using n ip d by simp
  next
    case (Cons c r2)
    show ?thesis
    proof (cases "c = 46")
      case True
      have e: "valid_exponent (dropWhile is_digit r2)" and f: "takeWhile is_digit r2 \<noteq> []"
        using assms Cons True by (simp_all add: valid_unsigned_def Let_def)
      from valid_exponent_str [OF e] obtain x where "str_exponent (dropWhile is_digit r2) = Some x"
        by blast
      then show ?thesis
        using n d f Cons True by (simp add: str_unsigned_decimal_def Let_def)
    next
      case False
      have e: "valid_exponent (dropWhile is_digit u)" and f: "takeWhile is_digit u \<noteq> []"
        using assms Cons False by (simp_all add: valid_unsigned_def Let_def)
      from valid_exponent_str [OF e] obtain x where "str_exponent (dropWhile is_digit u) = Some x"
        by blast
      then show ?thesis
        using n d f Cons False by (simp add: str_unsigned_decimal_def Let_def)
    qed
  qed
qed

lemma valid_float_decimal:
  assumes "valid_floating_point_number s"
  shows "\<exists>m e. str_decimal s = Some (Fin m e)"
proof (cases s)
  case Nil
  then show ?thesis using assms by (simp add: valid_floating_point_number_def)
next
  case (Cons c r)
  show ?thesis
  proof (cases "c = 45")
    case True
    have "valid_unsigned r"
      using assms Cons True by (simp add: valid_floating_point_number_def)
    from valid_unsigned_str [OF this] show ?thesis
      using Cons True by (auto simp add: str_decimal_def)
  next
    case False
    have v: "valid_unsigned s"
      using assms Cons False by (simp add: valid_floating_point_number_def)
    have p: "c \<noteq> 43"
      using v Cons by (auto simp add: valid_unsigned_def is_digit_def valid_exponent_def)
    from valid_unsigned_str [OF v] show ?thesis
      using Cons False p by (simp add: str_decimal_def)
  qed
qed

lemma valid_unsigned_decimal_literal:
  assumes "valid_unsigned s"
  shows "str_nondecimal s = None"
proof (cases s)
  case Nil
  then show ?thesis by (simp add: str_nondecimal_def)
next
  case (Cons z r)
  note z = Cons
  show ?thesis
  proof (cases r)
    case Nil
    then show ?thesis using z by (simp add: str_nondecimal_def)
  next
    case (Cons p ds)
    show ?thesis
    proof (cases "z = 48 \<and> p \<in> {120, 88, 111, 79, 98, 66}")
      case True
      have "dropWhile is_digit s = p # ds" "takeWhile is_digit s = [z]"
        using True z Cons by (auto simp add: is_digit_def)
      then have False
        using assms True by (auto simp add: valid_unsigned_def Let_def valid_exponent_def)
      then show ?thesis ..
    next
      case False
      then show ?thesis
        using z Cons by (auto simp add: str_nondecimal_def)
    qed
  qed
qed

lemma valid_float_nondecimal:
  assumes "valid_floating_point_number s"
  shows "str_nondecimal s = None"
proof (cases s)
  case Nil
  then show ?thesis by (simp add: str_nondecimal_def)
next
  case (Cons c r)
  show ?thesis
  proof (cases "c = 45")
    case True
    then show ?thesis using Cons by (simp add: str_nondecimal_def split: list.splits)
  next
    case False
    have "valid_unsigned s"
      using assms Cons False by (simp add: valid_floating_point_number_def)
    then show ?thesis by (rule valid_unsigned_decimal_literal)
  qed
qed

lemma valid_float_no_ws:
  assumes "valid_floating_point_number s"
  shows "list_all (\<lambda>c. \<not> is_ws c) s"
proof (cases s)
  case Nil
  then show ?thesis by simp
next
  case (Cons c r)
  show ?thesis
  proof (cases "c = 45")
    case True
    have "valid_unsigned r"
      using assms Cons True by (simp add: valid_floating_point_number_def)
    from valid_unsigned_no_ws [OF this] show ?thesis
      using Cons True by (simp add: is_ws_def)
  next
    case False
    have "valid_unsigned s"
      using assms Cons False by (simp add: valid_floating_point_number_def)
    then show ?thesis by (rule valid_unsigned_no_ws)
  qed
qed

lemma valid_float_is_finite:
  assumes "valid_floating_point_number s"
  shows "\<exists>m e. StringToNumber s = Fin m e"
proof -
  have t: "trim s = s"
    using valid_float_no_ws [OF assms] by (rule trim_no_ws)
  have n: "s \<noteq> []"
    using assms by (auto simp add: valid_floating_point_number_def)
  from valid_float_decimal [OF assms] obtain m e where "str_decimal s = Some (Fin m e)"
    by blast
  then show ?thesis
    using t n valid_float_nondecimal [OF assms] by (simp add: StringToNumber_def)
qed

lemma number_input_never_NaN: "StringToNumber (number_input_value entry) \<noteq> NaN"
proof (cases "valid_floating_point_number entry")
  case True
  from valid_float_is_finite [OF True] show ?thesis
    using True by (auto simp add: number_input_value_def)
next
  case False
  then show ?thesis
    by (simp add: number_input_value_def StringToNumber_def trim_def)
qed

lemma abc_is_sanitised: "number_input_value (str ''abc'') = []"
  by (simp add: number_input_value_def valid_floating_point_number_def valid_unsigned_def
      str_def is_digit_def valid_exponent_def)

lemma number_input_value_examples:
  "number_input_value (str ''-1.5e+3'') = str ''-1.5e+3''"
  "number_input_value (str ''.5'') = str ''.5''"
  "number_input_value (str ''12'') = str ''12''"
  "number_input_value (str ''1.'') = []"
  "number_input_value (str ''+1'') = []"
  "number_input_value (str ''1e'') = []"
  "number_input_value (str ''-'') = []"
  "number_input_value (str '' 1'') = []"
  "number_input_value (str ''0x10'') = []"
  "number_input_value (str ''Infinity'') = []"
  by (simp_all add: number_input_value_def valid_floating_point_number_def valid_unsigned_def
      str_def is_digit_def valid_exponent_def all_digits_def)

lemma fontSize_handed_on_eq:
  "fontSize_handed_on s c =
     Inr (if truthy_num (StringToNumber s) then StringToNumber s else Fin 14 0)"
  by (simp add: fontSize_handed_on_def fontSize_onChange_def bind_js_def options_fontSize_eq
      hooks_render apply_update_def)

lemma StringToNumber_18: "StringToNumber (str ''18'') = Fin 18 0"
  by (simp add: StringToNumber_def str_def trim_def is_ws_def str_nondecimal_def str_decimal_def
      str_unsigned_decimal_def is_digit_def mv_digits_def digit_val_def dec_def strip10.simps)

text \<open>
  Claim C6, as stated, fails: for the entry \<^verbatim>\<open>abc\<close>, as for a cleared field, the number
  control hands the empty string to the handler, \<^verbatim>\<open>Number\<close> converts it to 0, and the state
  variable holds 0 after the change, not 14.
\<close>

theorem nonnumeric_fontSize_is_stored_as_zero:
  "number_input_value (str ''abc'') = []
   \<and> fontSize_after (number_input_value (str ''abc'')) (new_component initialValue) =
       Inr (JNum (Fin 0 0))
   \<and> JNum (Fin 0 0) \<noteq> num 14"
  by (simp add: abc_is_sanitised clearing_stores_zero num_def dec_def strip10.simps)

text \<open>
  Claim C6, amended. For every string the control hands over, the handler converts it
  with \<^verbatim>\<open>Number\<close> (it never throws) and the state variable holds that number, as it is,
  after the next render. A cleared field or an entry that is not a number reaches the
  handler as the empty string and is stored as 0; \<^verbatim>\<open>NaN\<close> is never stored. The default
  replaces the number where the options of the editor are built: those of the next
  render hold the number when it is truthy and 14 otherwise, so 14 for the empty string.
\<close>

theorem fontSize_coerced_and_defaulted_in_options:
  "fontSize_after s c = Inr (JNum (StringToNumber s))
   \<and> fontSize_handed_on s c =
       Inr (if truthy_num (StringToNumber s) then StringToNumber s else Fin 14 0)
   \<and> fontSize_after (number_input_value entry) c \<noteq> Inr (JNum NaN)
   \<and> fontSize_after [] c = Inr (JNum (Fin 0 0))
   \<and> fontSize_handed_on [] c = Inr (Fin 14 0)"
proof -
  have a: "fontSize_after s c = Inr (JNum (StringToNumber s))"
    by (rule fontSize_after_eq)
  have b: "fontSize_handed_on s c =
      Inr (if truthy_num (StringToNumber s) then StringToNumber s else Fin 14 0)"
    by (rule fontSize_handed_on_eq)
  have n: "fontSize_after (number_input_value entry) c \<noteq> Inr (JNum NaN)"
    using number_input_never_NaN [of entry] by (simp add: fontSize_after_eq)
  have d: "fontSize_after [] c = Inr (JNum (Fin 0 0))"
    by (rule clearing_stores_zero)
  have z: "StringToNumber [] = Fin 0 0"
    by (simp add: StringToNumber_def trim_def)
  have e: "fontSize_handed_on [] c = Inr (Fin 14 0)"
    by (simp add: fontSize_handed_on_eq z truthy_num_def)
  show ?thesis
    using a b n d e by blast
qed

theorem fontSize_coerced_and_defaulted_in_options_witness:
  "fontSize_after (str ''18'') (new_component initialValue) = Inr (JNum (Fin 18 0))
   \<and> fontSize_handed_on (str ''18'') (new_component initialValue) = Inr (Fin 18 0)
   \<and> fontSize_after (number_input_value (str ''abc'')) (new_component initialValue) =
       Inr (JNum (Fin 0 0))
   \<and> fontSize_handed_on (number_input_value (str ''abc'')) (new_component initialValue) =
       Inr (Fin 14 0)"
  using fontSize_coerced_and_defaulted_in_options [of "str ''18''" "new_component initialValue" "str ''abc''"]
  by (simp add: StringToNumber_18 truthy_num_def abc_is_sanitised)

text \<open>
  Claim C10, as stated, fails: a stored font size of \<open>-5\<close> is truthy, so the options hold
  \<open>-5\<close>, which is not positive.
\<close>

theorem options_fontSize_negative:
  "options_fontSize (initialValue(FontSize := JNum (Fin (- 5) 0))) = Inr (Fin (- 5) 0)
   \<and> \<not> is_positive (Fin (- 5) 0)"
  by (simp add: options_fontSize_eq truthy_num_def is_positive_def)

text \<open>
  Claim C10, amended. For every stored value, when \<^verbatim>\<open>Number\<close> converts it the options
  hold the number if it is truthy and 14 otherwise, and when the conversion throws no
  options are built; so the font size handed to the editor is never \<^verbatim>\<open>NaN\<close> and never
  zero. It can be negative or infinite.
\<close>

theorem options_fontSize_never_NaN:
  "options_fontSize h =
     (case Number (h FontSize) of
        Inl e \<Rightarrow> Inl e
      | Inr n \<Rightarrow> Inr (if truthy_num n then n else Fin 14 0))
   \<and> options_fontSize h \<noteq> Inr NaN
   \<and> options_fontSize h \<noteq> Inr (Fin 0 0)"
  by (auto simp add: options_fontSize_eq truthy_num_def split: sum.splits)

theorem options_fontSize_never_NaN_witness:
  "options_fontSize (initialValue(FontSize := JNum NaN)) = Inr (Fin 14 0)
   \<and> options_fontSize (initialValue(FontSize := JNull)) = Inr (Fin 14 0)
   \<and> options_fontSize (initialValue(FontSize := JStr (str ''abc''))) = Inr (Fin 14 0)
   \<and> options_fontSize (initialValue(FontSize := JNum (Fin 18 0))) = Inr (Fin 18 0)
   \<and> options_fontSize (initialValue(FontSize := JObj [(str ''toString'', JNull)]))
       = Inl TypeError"
  using options_fontSize_never_NaN [of "initialValue(FontSize := JNum NaN)"]
    options_fontSize_never_NaN [of "initialValue(FontSize := JNull)"]
    options_fontSize_never_NaN [of "initialValue(FontSize := JStr (str ''abc''))"]
    options_fontSize_never_NaN [of "initialValue(FontSize := JNum (Fin 18 0))"]
    options_fontSize_never_NaN [of "initialValue(FontSize := JObj [(str ''toString'', JNull)])"]
  by (simp add: StringToNumber_abc truthy_num_def)

section \<open>Content changes\<close>

lemma run_listener_on:
  "snd l = (ed, sd) \<Longrightarrow>
   run_listener m l c = setState (slot_of sd) (KeepIfSame (getValue m ed sd)) c"
  by (cases sd)
    (simp_all add: run_listener_def original_listener_def modified_listener_def slot_of_def)

lemma fold_run_listener:
  "list_all (\<lambda>l. snd l = (ed, sd)) ls \<Longrightarrow>
   fold (run_listener m) ls c =
     c\<lparr>updates := updates c @ replicate (length ls) (slot_of sd, KeepIfSame (getValue m ed sd))\<rparr>"
proof (induction ls arbitrary: c)
  case Nil
  then show ?case by simp
next
  case (Cons l ls)
  then show ?case
    by (simp add: run_listener_on setState_def replicate_app_Cons_same)
qed

lemma content_changed_eq:
  "content_changed m ed sd c =
     c\<lparr>updates := updates c
        @ replicate (length (listening m ed sd)) (slot_of sd, KeepIfSame (getValue m ed sd))\<rparr>"
  unfolding content_changed_def
  by (rule fold_run_listener) (simp add: listening_def list_all_iff)

lemma keep_same_noop:
  "h f = JStr v \<Longrightarrow> foldl apply_update h (replicate n (f, KeepIfSame v)) = h"
  by (induction n) (simp_all add: apply_update_def strict_eq_def fun_upd_idem)

lemma effects_same: "effects h h = []"
  by (simp add: effects_def Object_is_def)

lemma render_content_changed:
  assumes "foldl apply_update (hooks c) (updates c) (slot_of sd) = JStr (getValue m ed sd)"
  shows "render (content_changed m ed sd c) = render c"
  using assms by (simp add: content_changed_eq render_def keep_same_noop)

text \<open>
  Claim C2. The editor reports a change on one side while the text of that side equals
  the state the updater will see (the rendered value with the queued updates applied).
  Whatever number of listeners run, the render that follows is the render without the
  event, and so are its effects; when nothing else was queued the component and the
  store are exactly as before: no \<open>writeStorage\<close> runs.
\<close>

theorem unchanged_text_is_not_written:
  assumes "foldl apply_update (hooks c) (updates c) (slot_of sd) = JStr (getValue m ed sd)"
  shows "apply_setarg (KeepIfSame (getValue m ed sd)) (JStr (getValue m ed sd))
           = JStr (getValue m ed sd)
         \<and> render (content_changed m ed sd c) = render c
         \<and> commit (content_changed m ed sd c) ls = commit c ls
         \<and> (if updates c = []
             then effects (hooks c) (hooks (render (content_changed m ed sd c))) = []
               \<and> commit (content_changed m ed sd c) ls = Inr (c, ls)
             else True)"
proof -
  have r: "render (content_changed m ed sd c) = render c"
    using assms by (rule render_content_changed)
  have h: "hooks (content_changed m ed sd c) = hooks c"
    by (simp add: content_changed_eq)
  have k: "commit (content_changed m ed sd c) ls = commit c ls"
    by (simp add: commit_def r h)
  have e: "updates c = [] \<Longrightarrow> render c = c"
    by (simp add: render_def)
  have n: "updates c = [] \<Longrightarrow> commit c ls = Inr (c, ls)"
    by (simp add: commit_def e effects_same bind_js_def)
  show ?thesis
    using r k e n by (simp add: strict_eq_def effects_same)
qed

theorem unchanged_text_is_not_written_witness:
  "commit
     (content_changed
        \<lparr>listeners = [(0, 7, OriginalSide), (1, 7, ModifiedSide)], next_handle = 2,
         texts = (\<lambda>ed sd. str ''same'')\<rparr> 7 OriginalSide
        (new_component (\<lambda>f. JStr (str ''same''))))
     \<lparr>items = [], denied = False, quota = None\<rparr>
   = Inr (new_component (\<lambda>f. JStr (str ''same'')), \<lparr>items = [], denied = False, quota = None\<rparr>)"
proof -
  let ?c = "new_component (\<lambda>f. JStr (str ''same''))"
  let ?m = "\<lparr>listeners = [(0, 7, OriginalSide), (1, 7, ModifiedSide)], next_handle = 2,
         texts = (\<lambda>ed sd. str ''same'')\<rparr>"
  have h: "foldl apply_update (hooks ?c) (updates ?c) (slot_of OriginalSide)
      = JStr (getValue ?m 7 OriginalSide)"
    by (simp add: new_component_def getValue_def)
  have u: "updates ?c = []"
    by (simp add: new_component_def)
  from unchanged_text_is_not_written [OF h, of "\<lparr>items = [], denied = False, quota = None\<rparr>"] u
  show ?thesis by metis
qed

section \<open>Clipboard\<close>

lemma copyToClipboard_eq:
  "copyToClipboard nav text =
     Inr (case writeText nav text of Inl e \<Rightarrow> (False, nav) | Inr nav' \<Rightarrow> (True, nav'))"
  by (simp add: copyToClipboard_def try_catch_def bind_js_def split: sum.splits)

lemma showToast_render: "hooks (render (fst (showToast msg c t))) Toast = JStr msg"
  by (simp add: hooks_render apply_update_def)

text \<open>
  Claim C8. \<open>copyToClipboard\<close> never throws: its result is \<open>True\<close> when the write to the
  clipboard succeeds and \<open>False\<close> when it fails in any way. \<open>handleCopy\<close> never throws:
  it shows \<^verbatim>\<open>Copy failed\<close> after a failed write and \<^verbatim>\<open>Copied\<close> after a successful one, in
  whatever state it resumes, and the message is on the page at the next render.
\<close>

theorem copy_failures_become_a_toast:
  "copyToClipboard nav text =
     Inr (case writeText nav text of Inl e \<Rightarrow> (False, nav) | Inr nav' \<Rightarrow> (True, nav'))
   \<and> handleCopy which c nav t =
       Inr (case writeText nav (copy_source which c) of
              Inl e \<Rightarrow> (fst (showToast (str ''Copy failed'') c t), nav,
                         snd (showToast (str ''Copy failed'') c t))
            | Inr nav' \<Rightarrow> (fst (showToast (str ''Copied'') c t), nav',
                            snd (showToast (str ''Copied'') c t)))
   \<and> handleCopy_resume False c' t' = showToast (str ''Copy failed'') c' t'
   \<and> hooks (render (fst (handleCopy_resume False c' t'))) Toast = JStr (str ''Copy failed'')"
  by (simp add: handleCopy_def handleCopy_start_def handleCopy_resume_def copyToClipboard_eq
      bind_js_def showToast_render split: sum.splits prod.splits)

theorem copy_failures_become_a_toast_witness:
  "copyToClipboard (Some \<lparr>contents = None, permitted = False\<rparr>) (JStr (str ''x''))
     = Inr (False, Some \<lparr>contents = None, permitted = False\<rparr>)
   \<and> copyToClipboard None (JStr (str ''x'')) = Inr (False, None)
   \<and> copyToClipboard (Some \<lparr>contents = None, permitted = True\<rparr>) (JStr (str ''x''))
     = Inr (True, Some \<lparr>contents = Some (str ''x''), permitted = True\<rparr>)
   \<and> handleCopy (JStr (str ''original'')) (new_component initialValue) None (no_timers 0)
     = Inr (fst (showToast (str ''Copy failed'') (new_component initialValue) (no_timers 0)),
            None,
            snd (showToast (str ''Copy failed'') (new_component initialValue) (no_timers 0)))"
  using copy_failures_become_a_toast [of "Some \<lparr>contents = None, permitted = False\<rparr>"
      "JStr (str ''x'')" "JStr (str ''original'')" "new_component initialValue" "no_timers 0"]
    copy_failures_become_a_toast [of None
      "JStr (str ''x'')" "JStr (str ''original'')" "new_component initialValue" "no_timers 0"]
    copy_failures_become_a_toast [of "Some \<lparr>contents = None, permitted = True\<rparr>"
      "JStr (str ''x'')" "JStr (str ''original'')" "new_component initialValue" "no_timers 0"]
  by (simp add: writeText_def bind_js_def)

section \<open>Subscriptions\<close>

lemma dispose_all_listeners:
  "listeners (dispose_all ds m) = filter (\<lambda>l. Some (fst l) \<notin> set ds) (listeners m)
   \<and> next_handle (dispose_all ds m) = next_handle m
   \<and> texts (dispose_all ds m) = texts m"
proof (induction ds arbitrary: m)
  case Nil
  then show ?case by (simp add: dispose_all_def)
next
  case (Cons d ds)
  have step: "dispose_all (d # ds) m =
      dispose_all ds (case d of None \<Rightarrow> m | Some h \<Rightarrow> dispose h m)"
    by (simp add: dispose_all_def)
  show ?case
  proof (cases d)
    case None
    then show ?thesis using Cons.IH [of m] step
      by (auto intro: filter_cong)
  next
    case (Some h)
    then show ?thesis using Cons.IH [of "dispose h m"] step
      by (auto simp add: dispose_def intro: filter_cong)
  qed
qed

lemma owns_dispose_all: "owns c m \<Longrightarrow> listeners (dispose_all (disposablesRef c) m) = []"
  by (simp add: dispose_all_listeners owns_def list_all_iff filter_empty_conv)

lemma handleMount_fields:
  "listeners (snd (handleMount ed c m)) =
     filter (\<lambda>l. Some (fst l) \<notin> set (disposablesRef c)) (listeners m)
     @ [(next_handle m, ed, OriginalSide), (Suc (next_handle m), ed, ModifiedSide)]
   \<and> next_handle (snd (handleMount ed c m)) = Suc (Suc (next_handle m))
   \<and> texts (snd (handleMount ed c m)) = texts m
   \<and> disposablesRef (fst (handleMount ed c m)) = [Some (next_handle m), Some (Suc (next_handle m))]
   \<and> diffEditorRef (fst (handleMount ed c m)) = Some ed
   \<and> hooks (fst (handleMount ed c m)) = hooks c
   \<and> updates (fst (handleMount ed c m)) = updates c
   \<and> toastTimer (fst (handleMount ed c m)) = toastTimer c"
  by (simp add: handleMount_def onDidChangeModelContent_def Let_def dispose_all_listeners)

lemma owns_handleMount:
  "owns c m \<Longrightarrow> owns (fst (handleMount ed c m)) (snd (handleMount ed c m))"
  by (simp add: handleMount_fields owns_def list_all_iff filter_empty_conv)

lemma handleMount_owned:
  "owns c m \<Longrightarrow>
   listeners (snd (handleMount ed c m)) =
     [(next_handle m, ed, OriginalSide), (Suc (next_handle m), ed, ModifiedSide)]"
  by (simp add: handleMount_fields owns_def list_all_iff filter_empty_conv)

lemma mount_twice_eq:
  "mount_twice e1 e2 c m = handleMount e2 (fst (handleMount e1 c m)) (snd (handleMount e1 c m))"
  by (simp add: mount_twice_def case_prod_beta)

lemma mount_twice_listeners:
  assumes "owns c m"
  shows "listeners (snd (mount_twice e1 e2 c m)) =
     [(next_handle m + 2, e2, OriginalSide), (next_handle m + 3, e2, ModifiedSide)]"
proof -
  have o: "owns (fst (handleMount e1 c m)) (snd (handleMount e1 c m))"
    using assms by (rule owns_handleMount)
  show ?thesis
    using handleMount_owned [OF o, of e2] by (simp add: mount_twice_eq handleMount_fields)
qed

lemma one_listener:
  assumes "listening m ed sd = [l]"
  shows "content_changed m ed sd c = setState (slot_of sd) (KeepIfSame (getValue m ed sd)) c"
  using assms by (simp add: content_changed_eq setState_def)

lemma keep_same_result:
  "foldl apply_update h (us @ [(f, KeepIfSame v)]) f = JStr v"
  by (simp add: apply_update_def strict_eq_def)

lemma two_mounts_when_owned:
  assumes "owns c m"
  shows "listeners (snd (mount_twice e1 e2 c m)) =
           [(next_handle m + 2, e2, OriginalSide), (next_handle m + 3, e2, ModifiedSide)]
         \<and> disposablesRef (fst (mount_twice e1 e2 c m)) =
             [Some (next_handle m + 2), Some (next_handle m + 3)]
         \<and> length (listening (snd (mount_twice e1 e2 c m)) e2 sd) = 1
         \<and> updates (content_changed (snd (mount_twice e1 e2 c m)) e2 sd c') =
             updates c' @ [(slot_of sd, KeepIfSame (getValue (snd (mount_twice e1 e2 c m)) e2 sd))]
         \<and> hooks (render (content_changed (snd (mount_twice e1 e2 c m)) e2 sd c')) (slot_of sd) =
             JStr (getValue (snd (mount_twice e1 e2 c m)) e2 sd)"
proof -
  let ?m2 = "snd (mount_twice e1 e2 c m)"
  have l: "listeners ?m2 =
      [(next_handle m + 2, e2, OriginalSide), (next_handle m + 3, e2, ModifiedSide)]"
    using assms by (rule mount_twice_listeners)
  have d: "disposablesRef (fst (mount_twice e1 e2 c m)) =
      [Some (next_handle m + 2), Some (next_handle m + 3)]"
    by (simp add: mount_twice_eq handleMount_fields)
  have n: "length (listening ?m2 e2 sd) = 1"
    by (cases sd) (simp_all add: listening_def l)
  have u: "updates (content_changed ?m2 e2 sd c') =
      updates c' @ [(slot_of sd, KeepIfSame (getValue ?m2 e2 sd))]"
    by (simp add: content_changed_eq n)
  have h: "hooks (content_changed ?m2 e2 sd c') = hooks c'"
    by (simp add: content_changed_eq)
  have r: "hooks (render (content_changed ?m2 e2 sd c')) (slot_of sd) = JStr (getValue ?m2 e2 sd)"
    unfolding hooks_render u h by (rule keep_same_result)
  show ?thesis using l d n u r by simp
qed

section \<open>Notifications\<close>

lemma render_idle: "updates c = [] \<Longrightarrow> render c = c"
  by (simp add: render_def)


lemma tick_not_due:
  assumes "list_all (\<lambda>p. clock t + 1 < snd p) (pending t)"
  shows "tick c t = (c, t\<lparr>clock := Suc (clock t)\<rparr>)"
proof -
  have a: "filter (\<lambda>p. snd p \<le> Suc (clock t)) (pending t) = []"
    using assms by (auto simp add: list_all_iff filter_empty_conv)
  have b: "filter (\<lambda>p. \<not> snd p \<le> Suc (clock t)) (pending t) = pending t"
    using assms by (auto simp add: list_all_iff filter_id_conv)
  show ?thesis
    by (simp add: tick_def due_def Let_def a b)
qed

lemma run_Tick: "run (Tick # evs) (c, t) = run evs (render (fst (tick c t)), snd (tick c t))"
  by (simp add: run_def case_prod_beta)

lemma run_Show:
  "run (Show msg # evs) (c, t) = run evs (render (fst (showToast msg c t)), snd (showToast msg c t))"
  by (simp add: run_def case_prod_beta)

lemma run_Nil [simp]: "run [] s = s"
  by (simp add: run_def)

lemma run_append: "run (xs @ ys) s = run ys (run xs s)"
  by (simp add: run_def)

lemma idle_ticks:
  assumes "updates c = []" and "list_all (\<lambda>p. clock t + j < snd p) (pending t)"
  shows "run (replicate j Tick) (c, t) = (c, t\<lparr>clock := clock t + j\<rparr>)
         \<and> firings (replicate j Tick) (c, t) = 0"
  using assms
proof (induction j arbitrary: t)
  case 0
  then show ?case by simp
next
  case (Suc j)
  have nd: "list_all (\<lambda>p. clock t + 1 < snd p) (pending t)"
    using Suc.prems(2) by (auto simp add: list_all_iff)
  have tk: "tick c t = (c, t\<lparr>clock := Suc (clock t)\<rparr>)"
    using nd by (rule tick_not_due)
  have d0: "due (t\<lparr>clock := Suc (clock t)\<rparr>) = []"
    using nd by (auto simp add: due_def list_all_iff filter_empty_conv)
  have st: "step Tick (c, t) = (c, t\<lparr>clock := Suc (clock t)\<rparr>)"
    by (simp add: tk render_idle Suc.prems(1))
  have p: "list_all (\<lambda>p. clock (t\<lparr>clock := Suc (clock t)\<rparr>) + j < snd p)
      (pending (t\<lparr>clock := Suc (clock t)\<rparr>))"
    using Suc.prems(2) by (auto simp add: list_all_iff)
  from Suc.IH [OF Suc.prems(1) p] show ?case
    by (simp add: run_def st d0 del: step.simps)
qed

lemma toast_inv_showToast:
  assumes "toast_inv c t"
  shows "pending (snd (showToast msg c t)) = [(next_timer t, clock t + 1200)]
         \<and> toast_inv (fst (showToast msg c t)) (snd (showToast msg c t))"
proof -
  have a: "\<forall>p\<in>set (pending t). fst p = toastTimer c \<and> fst p \<noteq> 0"
    using assms by (auto simp add: toast_inv_def list_all_iff)
  have z: "toastTimer c = 0 \<Longrightarrow> pending t = []"
  proof (cases "pending t")
    case Nil
    then show ?thesis by simp
  next
    case (Cons p ps)
    assume "toastTimer c = 0"
    with a Cons show ?thesis by auto
  qed
  have f: "filter (\<lambda>p. fst p \<noteq> toastTimer c) (pending t) = []"
    using a by (simp add: filter_empty_conv)
  have e: "(if toastTimer c \<noteq> 0 then filter (\<lambda>p. fst p \<noteq> toastTimer c) (pending t) else pending t) = []"
    by (cases "toastTimer c = 0") (simp_all add: z f)
  have p: "pending (snd (showToast msg c t)) = [(next_timer t, clock t + 1200)]"
    using z f by (auto simp add: showToast_timer)
  show ?thesis
    using assms p by (simp add: toast_inv_def showToast_timer)
qed

lemma toast_inv_render: "toast_inv (render c) t = toast_inv c t"
  by (simp add: toast_inv_def render_def)

lemma toastTimer_fold_expired: "toastTimer (fold (\<lambda>p. toast_expired) xs c) = toastTimer c"
  by (induction xs arbitrary: c) (simp_all add: toast_expired_def)

lemma toast_inv_tick:
  assumes "toast_inv c t"
  shows "toast_inv (fst (tick c t)) (snd (tick c t))"
proof -
  have l: "length (filter (\<lambda>p. \<not> snd p \<le> Suc (clock t)) (pending t)) \<le> length (pending t)"
    by (rule length_filter_le)
  have n: "length (filter (\<lambda>p. \<not> snd p \<le> Suc (clock t)) (pending t)) \<le> 1"
    using assms order_trans [OF l, of 1] by (simp add: toast_inv_def)
  show ?thesis
    using assms n
    by (auto simp add: toast_inv_def tick_def Let_def toastTimer_fold_expired list_all_iff)
qed

lemma toast_inv_step:
  assumes "toast_inv (fst s) (snd s)"
  shows "toast_inv (fst (step e s)) (snd (step e s))"
proof (cases s)
  case (Pair c t)
  show ?thesis
  proof (cases e)
    case (Show msg)
    then show ?thesis
      using assms Pair toast_inv_showToast [of c t msg]
      by (simp add: case_prod_beta toast_inv_render)
  next
    case Tick
    then show ?thesis
      using assms Pair toast_inv_tick [of c t]
      by (simp add: case_prod_beta toast_inv_render)
  qed
qed

lemma toast_inv_run:
  assumes "toast_inv (fst s) (snd s)"
  shows "toast_inv (fst (run evs s)) (snd (run evs s))"
  using assms
proof (induction evs arbitrary: s)
  case Nil
  then show ?case by simp
next
  case (Cons e evs)
  have "run (e # evs) s = run evs (step e s)"
    by (simp add: run_def)
  then show ?case
    using Cons.IH [OF toast_inv_step [OF Cons.prems]] by simp
qed

lemma toast_inv_initial: "toast_inv (new_component h) (no_timers now)"
  by (simp add: toast_inv_def new_component_def no_timers_def)


lemma run_Cons: "run (e # xs) s = run xs (step e s)"
  by (simp add: run_def)

lemma firings_append: "firings (xs @ ys) s = firings xs s + firings ys (run xs s)"
proof (induction xs arbitrary: s)
  case Nil
  then show ?case by simp
next
  case (Cons e xs)
  show ?case
    by (cases e) (simp_all add: Cons.IH run_Cons del: step.simps)
qed

lemma step_Show_fields:
  assumes "toast_inv c t" and "updates c = []"
  shows "updates (fst (step (Show msg) (c, t))) = []
         \<and> hooks (fst (step (Show msg) (c, t))) = (hooks c)(Toast := JStr msg)
         \<and> toastTimer (fst (step (Show msg) (c, t))) = next_timer t
         \<and> pending (snd (step (Show msg) (c, t))) = [(next_timer t, clock t + 1200)]
         \<and> clock (snd (step (Show msg) (c, t))) = clock t
         \<and> next_timer (snd (step (Show msg) (c, t))) = Suc (next_timer t)"
  using toast_inv_showToast [OF assms(1), of msg] assms(2)
  by (simp add: case_prod_beta render_def showToast_timer apply_update_def)

lemma step_Tick_fires:
  assumes "updates c = []" and "pending t = [(h, Suc (clock t))]"
  shows "updates (fst (step Tick (c, t))) = []
         \<and> hooks (fst (step Tick (c, t))) = (hooks c)(Toast := JNull)
         \<and> toastTimer (fst (step Tick (c, t))) = toastTimer c
         \<and> pending (snd (step Tick (c, t))) = []
         \<and> clock (snd (step Tick (c, t))) = Suc (clock t)
         \<and> next_timer (snd (step Tick (c, t))) = next_timer t
         \<and> firings [Tick] (c, t) = 1"
  using assms
  by (simp add: case_prod_beta render_def tick_def due_def Let_def toast_expired_def
      setState_def apply_update_def)

lemma ticks_one_timer:
  assumes "updates c = []" and "pending t = [(h, d)]" and "clock t < d"
  shows "visible_toast (run (replicate j Tick) (c, t)) =
           (if clock t + j < d then hooks c Toast else JNull)
         \<and> pending (snd (run (replicate j Tick) (c, t))) =
           (if clock t + j < d then [(h, d)] else [])
         \<and> firings (replicate j Tick) (c, t) = (if clock t + j < d then 0 else 1)
         \<and> updates (fst (run (replicate j Tick) (c, t))) = []
         \<and> clock (snd (run (replicate j Tick) (c, t))) = clock t + j
         \<and> next_timer (snd (run (replicate j Tick) (c, t))) = next_timer t"
proof (cases "clock t + j < d")
  case True
  have p: "list_all (\<lambda>p. clock t + j < snd p) (pending t)"
    using True assms(2) by simp
  from idle_ticks [OF assms(1) p] True assms show ?thesis
    by (simp add: visible_toast_def)
next
  case False
  define a where "a = d - Suc (clock t)"
  define b where "b = clock t + j - d"
  have j: "j = a + (1 + b)"
    using False assms(3) by (simp add: a_def b_def)
  have rep: "replicate j Tick = replicate a Tick @ [Tick] @ replicate b Tick"
    unfolding j by (simp add: replicate_add replicate_append_same)
  have p1: "list_all (\<lambda>p. clock t + a < snd p) (pending t)"
    using assms(2,3) by (simp add: a_def)
  note s1 = idle_ticks [OF assms(1) p1]
  let ?t1 = "t\<lparr>clock := clock t + a\<rparr>"
  have pt1: "pending ?t1 = [(h, Suc (clock ?t1))]"
    using assms(2,3) by (simp add: a_def)
  note s2 = step_Tick_fires [OF assms(1) pt1]
  let ?s2 = "step Tick (c, ?t1)"
  have u2: "updates (fst ?s2) = []"
    using s2 by blast
  have p2: "list_all (\<lambda>p. clock (snd ?s2) + b < snd p) (pending (snd ?s2))"
    using s2 by simp
  have s3: "run (replicate b Tick) ?s2 = (fst ?s2, (snd ?s2)\<lparr>clock := clock (snd ?s2) + b\<rparr>)
      \<and> firings (replicate b Tick) ?s2 = 0"
    using idle_ticks [OF u2 p2] by simp
  have r: "run (replicate j Tick) (c, t) = (fst ?s2, (snd ?s2)\<lparr>clock := clock (snd ?s2) + b\<rparr>)"
    unfolding rep run_append using s1 s3 by (simp add: run_def del: step.simps)
  have f: "firings (replicate j Tick) (c, t) = 1"
    unfolding rep firings_append using s1 s2 s3 by (simp add: run_def del: step.simps)
  show ?thesis
    using False r f s2 assms(3) by (simp add: visible_toast_def a_def b_def del: step.simps)
qed

lemma ticks_without_timers:
  assumes "pending t = []"
  shows "pending (snd (run (replicate n Tick) (c, t))) = []
         \<and> firings (replicate n Tick) (c, t) = 0"
  using assms
proof (induction n arbitrary: c t)
  case 0
  then show ?case by simp
next
  case (Suc n)
  have p: "pending (snd (tick c t)) = []"
    using Suc.prems by (simp add: tick_def Let_def)
  have d: "due (t\<lparr>clock := Suc (clock t)\<rparr>) = []"
    using Suc.prems by (simp add: due_def)
  have s: "step Tick (c, t) = (render (fst (tick c t)), snd (tick c t))"
    by (simp add: case_prod_beta)
  from Suc.IH [OF p, of "render (fst (tick c t))"] show ?case
    by (simp add: run_Cons s d del: step.simps)
qed

lemma updates_step: "updates (fst (step e s)) = []"
  by (cases e; cases s) (simp_all add: case_prod_beta render_def)

lemma updates_run:
  assumes "updates (fst s) = []"
  shows "updates (fst (run evs s)) = []"
proof (cases evs rule: rev_cases)
  case Nil
  then show ?thesis using assms by simp
next
  case (snoc ys e)
  show ?thesis
    unfolding snoc run_append by (simp add: run_Cons updates_step del: step.simps)
qed

lemma last_show_decides:
  assumes "toast_inv c t" and "updates c = []"
  shows "visible_toast (run (Show x # replicate j Tick) (c, t)) =
           (if j < 1200 then JStr x else JNull)
         \<and> pending (snd (run (Show x # replicate j Tick) (c, t))) =
           (if j < 1200 then [(next_timer t, clock t + 1200)] else [])
         \<and> firings (Show x # replicate j Tick) (c, t) = (if j < 1200 then 0 else 1)"
proof -
  note f = step_Show_fields [OF assms, of x]
  obtain c1 t1 where s1: "step (Show x) (c, t) = (c1, t1)"
    by (cases "step (Show x) (c, t)")
  have c1: "updates c1 = []" "hooks c1 Toast = JStr x"
    and t1: "pending t1 = [(next_timer t, clock t + 1200)]" "clock t1 = clock t"
    using f s1 by simp_all
  have lt: "clock t1 < clock t + 1200"
    using t1 by simp
  note k = ticks_one_timer [OF c1(1) t1(1) lt, of j]
  show ?thesis
    using k c1 t1 by (simp add: run_Cons s1 del: step.simps)
qed

text \<open>
  Claim C7. From a fresh page, after any sequence of \<open>showToast\<close> calls and milliseconds
  there is at most one timer pending. Whatever that sequence was, when \<open>x\<close> is shown next
  the only timer pending is the one this call starts, due 1200 ms later (a timer still
  pending was cancelled); \<open>x\<close> is on the page for the next 1199 ms and the page shows
  nothing (\<^verbatim>\<open>null\<close>) from 1200 ms on, when no timer is pending any more; and of the timer
  callbacks that run after the call, one does, at 1200 ms. When \<open>y\<close> is shown
  immediately after \<open>x\<close>, the page shows \<open>y\<close> for its 1199 ms and a single callback runs:
  the timer of \<open>x\<close> never fires.
\<close>

theorem at_most_one_pending_timer:
  "length (pending (snd (run evs (new_component h, no_timers now)))) \<le> 1
   \<and> visible_toast (run (evs @ Show x # replicate j Tick) (new_component h, no_timers now)) =
       (if j < 1200 then JStr x else JNull)
   \<and> pending (snd (run (evs @ Show x # replicate j Tick) (new_component h, no_timers now))) =
       (if j < 1200
        then [(next_timer (snd (run evs (new_component h, no_timers now))),
               clock (snd (run evs (new_component h, no_timers now))) + 1200)]
        else [])
   \<and> firings (evs @ Show x # replicate j Tick) (new_component h, no_timers now) =
       firings evs (new_component h, no_timers now) + (if j < 1200 then 0 else 1)
   \<and> visible_toast (run (evs @ Show x # Show y # replicate j Tick) (new_component h, no_timers now)) =
       (if j < 1200 then JStr y else JNull)
   \<and> firings (evs @ Show x # Show y # replicate j Tick) (new_component h, no_timers now) =
       firings evs (new_component h, no_timers now) + (if j < 1200 then 0 else 1)"
proof -
  let ?s0 = "(new_component h, no_timers now)"
  have i0: "toast_inv (fst ?s0) (snd ?s0)"
    by (simp add: toast_inv_initial)
  have u0: "updates (fst ?s0) = []"
    by (simp add: new_component_def)
  have part1: "length (pending (snd (run evs ?s0))) \<le> 1"
    using toast_inv_run [OF i0, of evs] by (simp add: toast_inv_def)
  obtain c t where s: "run evs ?s0 = (c, t)"
    by (cases "run evs ?s0")
  have i: "toast_inv c t"
    using toast_inv_run [OF i0, of evs] s by simp
  have u: "updates c = []"
    using updates_run [OF u0, of evs] s by simp
  note a = last_show_decides [OF i u, of x j]
  have part2: "visible_toast (run (evs @ Show x # replicate j Tick) ?s0) =
      (if j < 1200 then JStr x else JNull)"
    unfolding run_append s using a by blast
  have part3: "pending (snd (run (evs @ Show x # replicate j Tick) ?s0)) =
      (if j < 1200 then [(next_timer (snd (run evs ?s0)), clock (snd (run evs ?s0)) + 1200)] else [])"
    unfolding run_append s using a by simp
  have part4: "firings (evs @ Show x # replicate j Tick) ?s0 =
      firings evs ?s0 + (if j < 1200 then 0 else 1)"
    unfolding firings_append s using a by simp
  obtain c' t' where s': "step (Show x) (c, t) = (c', t')"
    by (cases "step (Show x) (c, t)")
  have i': "toast_inv c' t'"
    using toast_inv_step [of "(c, t)" "Show x"] i s' by simp
  have u': "updates c' = []"
    using updates_step [of "Show x" "(c, t)"] s' by simp
  note b = last_show_decides [OF i' u', of y j]
  have part5: "visible_toast (run (evs @ Show x # Show y # replicate j Tick) ?s0) =
      (if j < 1200 then JStr y else JNull)"
    unfolding run_append s run_Cons [of "Show x"] s' using b by blast
  have fx: "firings (Show x # Show y # replicate j Tick) (c, t) =
      firings (Show y # replicate j Tick) (c', t')"
    using s' by (simp del: step.simps)
  have part6: "firings (evs @ Show x # Show y # replicate j Tick) ?s0 =
      firings evs ?s0 + (if j < 1200 then 0 else 1)"
    unfolding firings_append s fx using b by simp
  show ?thesis
    using part1 part2 part3 part4 part5 part6 by blast
qed

theorem at_most_one_pending_timer_witness:
  "length (pending (snd (run [Show (str ''X''), Tick, Show (str ''Y'')]
      (new_component initialValue, no_timers 0)))) \<le> 1
   \<and> visible_toast (run ([Show (str ''X''), Tick, Show (str ''Y'')] @ Show (str ''Z'') # replicate 1199 Tick)
         (new_component initialValue, no_timers 0)) = JStr (str ''Z'')
   \<and> visible_toast (run ([Show (str ''X''), Tick, Show (str ''Y'')] @ Show (str ''Z'') # replicate 1200 Tick)
         (new_component initialValue, no_timers 0)) = JNull
   \<and> firings ([Show (str ''X''), Tick, Show (str ''Y'')] @ Show (str ''Z'') # replicate 1200 Tick)
         (new_component initialValue, no_timers 0) = 1"
proof -
  have f0: "firings [Show (str ''X''), Tick, Show (str ''Y'')] (new_component initialValue, no_timers 0) = 0"
    by (simp add: showToast_def setState_def setTimeout_def clearTimeout_def Let_def new_component_def
        no_timers_def due_def tick_def render_def)
  from at_most_one_pending_timer [of "[Show (str ''X''), Tick, Show (str ''Y'')]"
      initialValue 0 "str ''Z''" 1199 "str ''W''"]
    at_most_one_pending_timer [of "[Show (str ''X''), Tick, Show (str ''Y'')]" initialValue 0
      "str ''Z''" 1200 "str ''W''"] f0
  show ?thesis
    by (simp del: firings.simps step.simps append.simps)
qed

section \<open>Teardown\<close>

lemma unmount_fields:
  "fst (unmount c m t) = c\<lparr>disposablesRef := []\<rparr>
   \<and> fst (snd (unmount c m t)) = dispose_all (disposablesRef c) m
   \<and> snd (snd (unmount c m t)) =
       (if toastTimer c \<noteq> 0 then clearTimeout t (toastTimer c) else t)"
  by (simp add: unmount_def Let_def)

lemma no_listener_no_update: "listeners m = [] \<Longrightarrow> content_changed m ed sd c = c"
  by (simp add: content_changed_def listening_def)

lemma toast_inv_cleared:
  assumes "toast_inv c t"
  shows "pending (if toastTimer c \<noteq> 0 then clearTimeout t (toastTimer c) else t) = []"
proof -
  have a: "\<forall>p\<in>set (pending t). fst p = toastTimer c \<and> fst p \<noteq> 0"
    using assms by (auto simp add: toast_inv_def list_all_iff)
  have z: "toastTimer c = 0 \<Longrightarrow> pending t = []"
  proof (cases "pending t")
    case Nil
    then show ?thesis by simp
  next
    case (Cons p ps)
    assume "toastTimer c = 0"
    with a Cons show ?thesis by auto
  qed
  have f: "filter (\<lambda>p. fst p \<noteq> toastTimer c) (pending t) = []"
    using a by (simp add: filter_empty_conv)
  show ?thesis
    using z f by (auto simp add: clearTimeout_def)
qed

lemma unmount_when_invariant:
  assumes "owns c m" and "toast_inv c t"
  shows "listeners (fst (snd (unmount c m t))) = []
         \<and> disposablesRef (fst (unmount c m t)) = []
         \<and> content_changed (fst (snd (unmount c m t))) ed sd c' = c'
         \<and> pending (snd (snd (unmount c m t))) = []
         \<and> pending (snd (run (replicate n Tick)
               (fst (unmount c m t), snd (snd (unmount c m t))))) = []
         \<and> firings (replicate n Tick) (fst (unmount c m t), snd (snd (unmount c m t))) = 0"
proof -
  have l: "listeners (fst (snd (unmount c m t))) = []"
    using owns_dispose_all [OF assms(1)] by (simp add: unmount_fields)
  have d: "disposablesRef (fst (unmount c m t)) = []"
    by (simp add: unmount_fields)
  have e: "content_changed (fst (snd (unmount c m t))) ed sd c' = c'"
    using l by (rule no_listener_no_update)
  have p: "pending (snd (snd (unmount c m t))) = []"
    using toast_inv_cleared [OF assms(2)] by (simp add: unmount_fields)
  note k = ticks_without_timers [OF p, of n "fst (unmount c m t)"]
  show ?thesis
    using l d e p k by blast
qed

section \<open>The life of the page\<close>

lemma disposablesRef_render [simp]: "disposablesRef (render c) = disposablesRef c"
  by (simp add: render_def)

lemma toastTimer_render [simp]: "toastTimer (render c) = toastTimer c"
  by (simp add: render_def)

lemma disposablesRef_showToast [simp]:
  "disposablesRef (fst (showToast msg c t)) = disposablesRef c"
  by (simp add: showToast_def setTimeout_def Let_def split: prod.splits)

lemma disposablesRef_fold_expired:
  "disposablesRef (fold (\<lambda>p. toast_expired) xs c) = disposablesRef c"
  by (induction xs arbitrary: c) (simp_all add: toast_expired_def)

lemma disposablesRef_step: "disposablesRef (fst (step e (c, t))) = disposablesRef c"
  by (cases e) (simp_all add: case_prod_beta tick_def Let_def disposablesRef_fold_expired)

lemma owns_cong:
  "listeners m' = listeners m \<Longrightarrow> disposablesRef c' = disposablesRef c \<Longrightarrow> owns c' m' = owns c m"
  by (simp add: owns_def)

lemma toast_inv_cong: "toastTimer c' = toastTimer c \<Longrightarrow> toast_inv c' t = toast_inv c t"
  by (simp add: toast_inv_def)

lemma act_invariant:
  assumes "owns (comp p) (mon p)" and "toast_inv (comp p) (tms p)"
  shows "owns (comp (act a p)) (mon (act a p)) \<and> toast_inv (comp (act a p)) (tms (act a p))"
proof (cases a)
  case (Mounted ed)
  have o: "owns (fst (handleMount ed (comp p) (mon p))) (snd (handleMount ed (comp p) (mon p)))"
    using assms(1) by (rule owns_handleMount)
  have t: "toast_inv (fst (handleMount ed (comp p) (mon p))) (tms p)"
    using assms(2) by (simp add: toast_inv_def handleMount_fields)
  show ?thesis
    using o t Mounted by (simp add: case_prod_beta)
next
  case (TextChanged ed sd v)
  have o: "owns (content_changed (set_text ed sd v (mon p)) ed sd (comp p))
      (set_text ed sd v (mon p))"
    using assms(1) by (simp add: owns_def content_changed_eq set_text_def)
  have t: "toast_inv (content_changed (set_text ed sd v (mon p)) ed sd (comp p)) (tms p)"
    using assms(2) by (simp add: toast_inv_def content_changed_eq)
  show ?thesis
    using o t TextChanged by (simp add: Let_def)
next
  case (Notify e)
  have o: "owns (fst (step e (comp p, tms p))) (mon p)"
    using assms(1) by (simp add: owns_def disposablesRef_step)
  have t: "toast_inv (fst (step e (comp p, tms p))) (snd (step e (comp p, tms p)))"
    using toast_inv_step [of "(comp p, tms p)" e] assms(2) by simp
  show ?thesis
    using o t Notify by (simp add: case_prod_beta del: step.simps)
next
  case (SetterCalled f a')
  show ?thesis
    using assms SetterCalled by (simp add: owns_def toast_inv_def)
next
  case Rendered
  show ?thesis
    using assms Rendered by (simp add: owns_def toast_inv_def)
qed

lemma perform_invariant:
  assumes "owns (comp p) (mon p)" and "toast_inv (comp p) (tms p)"
  shows "owns (comp (perform as p)) (mon (perform as p))
         \<and> toast_inv (comp (perform as p)) (tms (perform as p))"
  using assms
proof (induction as arbitrary: p)
  case Nil
  then show ?case by (simp add: perform_def)
next
  case (Cons a as)
  have s: "perform (a # as) p = perform as (act a p)"
    by (simp add: perform_def)
  from act_invariant [OF Cons.prems, of a] show ?case
    unfolding s using Cons.IH by blast
qed

lemma fresh_page_invariant:
  "owns (comp (perform as (fresh_page h tx now))) (mon (perform as (fresh_page h tx now)))
   \<and> toast_inv (comp (perform as (fresh_page h tx now))) (tms (perform as (fresh_page h tx now)))"
  by (rule perform_invariant)
    (simp_all add: fresh_page_def owns_def no_listeners_def toast_inv_initial)

text \<open>The handlers of the source, as sequences of actions.\<close>

lemma handleReset_as_actions:
  "comp (perform
     [SetterCalled Original (Put (JStr SAMPLE_ORIGINAL)),
      SetterCalled Modified (Put (JStr SAMPLE_MODIFIED)),
      SetterCalled Language (Put (JStr (str ''javascript''))),
      SetterCalled Theme (Put (JStr (str ''vs-dark''))),
      SetterCalled SideBySide (Put (JBool True)),
      SetterCalled IgnoreTrimWhitespace (Put (JBool True)),
      SetterCalled FontSize (Put (num 14)),
      Notify (Show (str ''Reset''))] p) = render (fst (handleReset (comp p) (tms p)))
   \<and> tms (perform
     [SetterCalled Original (Put (JStr SAMPLE_ORIGINAL)),
      SetterCalled Modified (Put (JStr SAMPLE_MODIFIED)),
      SetterCalled Language (Put (JStr (str ''javascript''))),
      SetterCalled Theme (Put (JStr (str ''vs-dark''))),
      SetterCalled SideBySide (Put (JBool True)),
      SetterCalled IgnoreTrimWhitespace (Put (JBool True)),
      SetterCalled FontSize (Put (num 14)),
      Notify (Show (str ''Reset''))] p) = snd (handleReset (comp p) (tms p))"
  by (simp add: perform_def handleReset_def Let_def case_prod_beta showToast_def setState_def)

lemma handleSwap_as_actions:
  "comp (perform
     [SetterCalled Original (Put (hooks (comp p) Modified)),
      SetterCalled Modified (Put (hooks (comp p) Original))] p) = handleSwap (comp p)"
  by (simp add: perform_def handleSwap_def Let_def)

lemma handleCopy_resume_as_action:
  "comp (act (Notify (Show (if ok then str ''Copied'' else str ''Copy failed''))) p) =
     render (fst (handleCopy_resume ok (comp p) (tms p)))
   \<and> tms (act (Notify (Show (if ok then str ''Copied'' else str ''Copy failed''))) p) =
     snd (handleCopy_resume ok (comp p) (tms p))"
  by (simp add: handleCopy_resume_def case_prod_beta)

lemma onChange_as_actions:
  "fontSize_onChange s (comp p) = Inr (comp (act (SetterCalled FontSize (Put (JNum (StringToNumber s)))) p))"
  "language_onChange s (comp p) = comp (act (SetterCalled Language (Put (JStr s))) p)"
  "theme_onChange s (comp p) = comp (act (SetterCalled Theme (Put (JStr s))) p)"
  "sideBySide_onClick (comp p) = comp (act (SetterCalled SideBySide Flip) p)"
  "ignoreTrimWhitespace_onClick (comp p) = comp (act (SetterCalled IgnoreTrimWhitespace Flip) p)"
  by (simp_all add: fontSize_onChange_def language_onChange_def theme_onChange_def
      sideBySide_onClick_def ignoreTrimWhitespace_onClick_def bind_js_def)

lemma two_mounts_on_page:
  "comp (act (Mounted e2) (act (Mounted e1) p)) = fst (mount_twice e1 e2 (comp p) (mon p))
   \<and> mon (act (Mounted e2) (act (Mounted e1) p)) = snd (mount_twice e1 e2 (comp p) (mon p))"
  by (simp add: mount_twice_eq case_prod_beta)

lemma text_changed_on_page:
  "comp (act (TextChanged ed sd v) p) = content_changed (set_text ed sd v (mon p)) ed sd (comp p)
   \<and> listening (set_text ed sd v m) ed' sd' = listening m ed' sd'
   \<and> getValue (set_text ed sd v m) ed sd = v"
  by (simp add: Let_def listening_def set_text_def getValue_def)

text \<open>
  Claim C1. At any moment of the life of the page, after two calls of \<open>handleMount\<close> in
  succession, with the same editor or two different ones, the listener table holds
  exactly the two listeners of the second call, one on each side of its editor, and the
  ref holds their two disposables: everything held before, the listeners of the first
  call included, was disposed. When the text of a side then changes, one listener runs
  and queues one update of the state variable of that side, and after the render the
  variable holds the new text.
\<close>

theorem remount_leaves_one_listener_per_side:
  "listeners (mon (act (Mounted e2) (act (Mounted e1) (perform as (fresh_page h tx now))))) =
     [(next_handle (mon (perform as (fresh_page h tx now))) + 2, e2, OriginalSide),
      (next_handle (mon (perform as (fresh_page h tx now))) + 3, e2, ModifiedSide)]
   \<and> disposablesRef (comp (act (Mounted e2) (act (Mounted e1) (perform as (fresh_page h tx now))))) =
     [Some (next_handle (mon (perform as (fresh_page h tx now))) + 2),
      Some (next_handle (mon (perform as (fresh_page h tx now))) + 3)]
   \<and> updates (comp (act (TextChanged e2 sd v)
         (act (Mounted e2) (act (Mounted e1) (perform as (fresh_page h tx now)))))) =
     updates (comp (perform as (fresh_page h tx now))) @ [(slot_of sd, KeepIfSame v)]
   \<and> hooks (comp (act Rendered (act (TextChanged e2 sd v)
         (act (Mounted e2) (act (Mounted e1) (perform as (fresh_page h tx now))))))) (slot_of sd) =
     JStr v"
proof -
  let ?p = "perform as (fresh_page h tx now)"
  let ?q = "act (Mounted e2) (act (Mounted e1) ?p)"
  have o: "owns (comp ?p) (mon ?p)"
    using fresh_page_invariant by blast
  note m = two_mounts_when_owned [OF o, of e1 e2]
  have l: "listeners (mon ?q) =
      [(next_handle (mon ?p) + 2, e2, OriginalSide), (next_handle (mon ?p) + 3, e2, ModifiedSide)]"
    using m by (simp only: two_mounts_on_page)
  have d: "disposablesRef (comp ?q) = [Some (next_handle (mon ?p) + 2), Some (next_handle (mon ?p) + 3)]"
    using m by (simp only: two_mounts_on_page)
  have n: "length (listening (set_text e2 sd v (mon ?q)) e2 sd) = 1"
    using m [of sd] by (simp only: two_mounts_on_page text_changed_on_page)
  have c: "comp (act (TextChanged e2 sd v) ?q) =
      (comp ?q)\<lparr>updates := updates (comp ?q) @ [(slot_of sd, KeepIfSame v)]\<rparr>"
    using n by (simp add: text_changed_on_page content_changed_eq del: act.simps)
  have uq: "updates (comp ?q) = updates (comp ?p)"
    by (simp add: case_prod_beta handleMount_fields)
  have u: "updates (comp (act (TextChanged e2 sd v) ?q)) =
      updates (comp ?p) @ [(slot_of sd, KeepIfSame v)]"
    unfolding c using uq by simp
  have r: "hooks (comp (act Rendered (act (TextChanged e2 sd v) ?q))) (slot_of sd) = JStr v"
    unfolding act.simps(5) c by (simp add: hooks_render apply_update_def strict_eq_def)
  show ?thesis
    using l d u r by blast
qed

theorem remount_leaves_one_listener_per_side_witness:
  "listeners (mon (act (Mounted 7) (act (Mounted 7)
      (perform [] (fresh_page initialValue (\<lambda>ed sd. str ''text'') 0))))) =
     [(2, 7, OriginalSide), (3, 7, ModifiedSide)]
   \<and> updates (comp (act (TextChanged 7 OriginalSide (str ''edited''))
       (act (Mounted 7) (act (Mounted 7)
         (perform [] (fresh_page initialValue (\<lambda>ed sd. str ''text'') 0)))))) =
     [(Original, KeepIfSame (str ''edited''))]"
  using remount_leaves_one_listener_per_side [of 7 7 "[]" initialValue "\<lambda>ed sd. str ''text''" 0
      OriginalSide "str ''edited''"]
  by (simp add: perform_def fresh_page_def no_listeners_def new_component_def slot_of_def
      del: act.simps)

lemma teardown_fields:
  "comp (teardown p) = fst (unmount (comp p) (mon p) (tms p))
   \<and> mon (teardown p) = fst (snd (unmount (comp p) (mon p) (tms p)))
   \<and> tms (teardown p) = snd (snd (unmount (comp p) (mon p) (tms p)))"
  by (simp add: teardown_def case_prod_beta)

lemma toast_inv_teardown:
  assumes "toast_inv (comp p) (tms p)"
  shows "toast_inv (comp (teardown p)) (tms (teardown p)) \<and> pending (tms (teardown p)) = []"
proof -
  have e: "pending (tms (teardown p)) = []"
    using toast_inv_cleared [OF assms] by (simp add: teardown_fields unmount_fields)
  have n: "next_timer (tms (teardown p)) = next_timer (tms p)"
    by (simp add: teardown_fields unmount_fields clearTimeout_def)
  show ?thesis
    using assms e n by (simp add: toast_inv_def)
qed

text \<open>
  Claim C9, as stated, fails: \<open>handleCopy\<close> awaits the clipboard, and nothing cancels it
  when the component is removed. With a copy started before the cleanup and resumed
  after it, the cleanup leaves no timer pending, the resumed handler shows its toast and
  starts a timer, and that timer fires 1200 ms later.
\<close>

theorem copy_resumed_after_teardown_fires:
  "handleCopy_start (JStr (str ''original''))
       (comp (perform [Mounted 7] (fresh_page initialValue (\<lambda>ed sd. str ''text'') 0)))
       (Some \<lparr>contents = None, permitted = True\<rparr>) =
     Inr (True, Some \<lparr>contents = Some SAMPLE_ORIGINAL, permitted = True\<rparr>)
   \<and> pending (tms (teardown (perform [Mounted 7] (fresh_page initialValue (\<lambda>ed sd. str ''text'') 0)))) = []
   \<and> pending (snd (handleCopy_resume True
         (comp (teardown (perform [Mounted 7] (fresh_page initialValue (\<lambda>ed sd. str ''text'') 0))))
         (tms (teardown (perform [Mounted 7] (fresh_page initialValue (\<lambda>ed sd. str ''text'') 0)))))) =
     [(1, 1200)]
   \<and> firings (replicate 1200 Tick)
       (render (fst (handleCopy_resume True
         (comp (teardown (perform [Mounted 7] (fresh_page initialValue (\<lambda>ed sd. str ''text'') 0))))
         (tms (teardown (perform [Mounted 7] (fresh_page initialValue (\<lambda>ed sd. str ''text'') 0)))))),
        snd (handleCopy_resume True
         (comp (teardown (perform [Mounted 7] (fresh_page initialValue (\<lambda>ed sd. str ''text'') 0))))
         (tms (teardown (perform [Mounted 7] (fresh_page initialValue (\<lambda>ed sd. str ''text'') 0)))))) = 1"
proof -
  let ?p = "teardown (perform [Mounted 7] (fresh_page initialValue (\<lambda>ed sd. str ''text'') 0))"
  let ?s = "handleCopy_resume True (comp ?p) (tms ?p)"
  have a: "handleCopy_start (JStr (str ''original''))
       (comp (perform [Mounted 7] (fresh_page initialValue (\<lambda>ed sd. str ''text'') 0)))
       (Some \<lparr>contents = None, permitted = True\<rparr>) =
     Inr (True, Some \<lparr>contents = Some SAMPLE_ORIGINAL, permitted = True\<rparr>)"
    by (simp add: handleCopy_start_def copy_source_def strict_eq_def copyToClipboard_def writeText_def
        bind_js_def try_catch_def perform_def fresh_page_def new_component_def case_prod_beta
        handleMount_fields)
  have t: "tms ?p = no_timers 0"
    by (simp add: teardown_fields unmount_fields perform_def fresh_page_def new_component_def
        case_prod_beta handleMount_fields)
  have b: "pending (tms ?p) = []"
    by (simp add: t no_timers_def)
  have i: "toast_inv (comp ?p) (tms ?p)"
    using toast_inv_teardown fresh_page_invariant by blast
  have u: "updates (comp ?p) = []"
    by (simp add: teardown_fields unmount_fields perform_def fresh_page_def new_component_def
        case_prod_beta handleMount_fields)
  have st: "(render (fst ?s), snd ?s) = step (Show (str ''Copied'')) (comp ?p, tms ?p)"
    by (simp add: handleCopy_resume_def case_prod_beta)
  note f = step_Show_fields [OF i u, of "str ''Copied''"]
  have c: "pending (snd ?s) = [(1, 1200)]"
    using f unfolding st [symmetric] by (simp add: t no_timers_def)
  have u1: "updates (render (fst ?s)) = []"
    by (simp add: render_def)
  have lt: "clock (snd ?s) < 1200"
    using f unfolding st [symmetric] by (simp add: t no_timers_def)
  have d: "firings (replicate 1200 Tick) (render (fst ?s), snd ?s) = 1"
    using ticks_one_timer [OF u1 c lt, of 1200] by simp
  show ?thesis
    using a b c d by blast
qed

text \<open>
  Claim C9, amended. At any moment of the life of the page, the cleanup leaves the
  listener table and the ref empty and no timer pending. Afterwards a change of the text
  of either side of any editor leaves the component as it is (no listener runs, no
  update is queued), and however many milliseconds pass no timer is pending and no timer
  callback runs: what was pending was cancelled. A copy that awaits the clipboard is
  not: when it resumes after the cleanup, its toast starts a timer, due 1200 ms later.
\<close>

theorem teardown_cancels_what_is_pending:
  "listeners (mon (teardown (perform as (fresh_page h tx now)))) = []
   \<and> disposablesRef (comp (teardown (perform as (fresh_page h tx now)))) = []
   \<and> comp (act (TextChanged ed sd v) (teardown (perform as (fresh_page h tx now)))) =
       comp (teardown (perform as (fresh_page h tx now)))
   \<and> pending (tms (teardown (perform as (fresh_page h tx now)))) = []
   \<and> pending (snd (run (replicate n Tick)
         (comp (teardown (perform as (fresh_page h tx now))),
          tms (teardown (perform as (fresh_page h tx now)))))) = []
   \<and> firings (replicate n Tick)
         (comp (teardown (perform as (fresh_page h tx now))),
          tms (teardown (perform as (fresh_page h tx now)))) = 0
   \<and> pending (snd (handleCopy_resume ok
         (comp (teardown (perform as (fresh_page h tx now))))
         (tms (teardown (perform as (fresh_page h tx now)))))) =
       [(next_timer (tms (teardown (perform as (fresh_page h tx now)))),
         clock (tms (teardown (perform as (fresh_page h tx now)))) + 1200)]"
proof -
  let ?p = "perform as (fresh_page h tx now)"
  have o: "owns (comp ?p) (mon ?p)" and i: "toast_inv (comp ?p) (tms ?p)"
    using fresh_page_invariant by blast+
  note u = unmount_when_invariant [OF o i, of ed sd "comp (teardown ?p)" n]
  have l: "listeners (mon (teardown ?p)) = []"
    using u by (simp add: teardown_fields)
  have d: "disposablesRef (comp (teardown ?p)) = []"
    using u by (simp add: teardown_fields)
  have e: "comp (act (TextChanged ed sd v) (teardown ?p)) = comp (teardown ?p)"
    using l by (simp add: text_changed_on_page content_changed_def listening_def set_text_def
        del: act.simps)
  have t: "pending (tms (teardown ?p)) = []"
    using u by (simp add: teardown_fields)
  have k: "pending (snd (run (replicate n Tick) (comp (teardown ?p), tms (teardown ?p)))) = []"
    using u by (simp add: teardown_fields)
  have f: "firings (replicate n Tick) (comp (teardown ?p), tms (teardown ?p)) = 0"
    using u by (simp add: teardown_fields)
  have j: "toast_inv (comp (teardown ?p)) (tms (teardown ?p))"
    using toast_inv_teardown [OF i] by blast
  have r: "pending (snd (handleCopy_resume ok (comp (teardown ?p)) (tms (teardown ?p)))) =
      [(next_timer (tms (teardown ?p)), clock (tms (teardown ?p)) + 1200)]"
    using toast_inv_showToast [OF j] by (simp add: handleCopy_resume_def)
  show ?thesis
    using l d e t k f r by blast
qed

theorem teardown_cancels_what_is_pending_witness:
  "listeners (mon (teardown (perform [Mounted 7, Notify (Show (str ''Copied''))]
      (fresh_page initialValue (\<lambda>ed sd. str ''text'') 0)))) = []
   \<and> pending (tms (teardown (perform [Mounted 7, Notify (Show (str ''Copied''))]
      (fresh_page initialValue (\<lambda>ed sd. str ''text'') 0)))) = []
   \<and> listeners (mon (perform [Mounted 7, Notify (Show (str ''Copied''))]
      (fresh_page initialValue (\<lambda>ed sd. str ''text'') 0))) =
       [(0, 7, OriginalSide), (1, 7, ModifiedSide)]
   \<and> pending (tms (perform [Mounted 7, Notify (Show (str ''Copied''))]
      (fresh_page initialValue (\<lambda>ed sd. str ''text'') 0))) = [(1, 1200)]"
proof -
  have a: "listeners (mon (perform [Mounted 7, Notify (Show (str ''Copied''))]
      (fresh_page initialValue (\<lambda>ed sd. str ''text'') 0))) =
       [(0, 7, OriginalSide), (1, 7, ModifiedSide)]"
    by (simp add: perform_def fresh_page_def no_listeners_def new_component_def no_timers_def
        case_prod_beta handleMount_fields)
  have b: "pending (tms (perform [Mounted 7, Notify (Show (str ''Copied''))]
      (fresh_page initialValue (\<lambda>ed sd. str ''text'') 0))) = [(1, 1200)]"
    by (simp add: perform_def fresh_page_def no_listeners_def new_component_def no_timers_def
        case_prod_beta handleMount_fields showToast_timer)
  from teardown_cancels_what_is_pending [of "[Mounted 7, Notify (Show (str ''Copied''))]"
      initialValue "\<lambda>ed sd. str ''text''" 0] a b
  show ?thesis by blast
qed

section \<open>Writing a value and reading it back\<close>

subsection \<open>Strings\<close>

lemma radix_digit_hexdig: "d < 16 \<Longrightarrow> radix_digit (hexdig d) = Some d"
  by (simp add: radix_digit_def hexdig_def)

lemma hex_digits_value:
  fixes c :: nat
  assumes "c < 65536"
  shows "c div 4096 < 16 \<and> c div 4096 mod 16 = c div 4096
    \<and> 4096 * (c div 4096) + 256 * (c div 256 mod 16) + 16 * (c div 16 mod 16) + c mod 16 = c"
proof -
  have l: "c div 4096 < 16"
    using assms by (simp add: less_mult_imp_div_less)
  have a: "c div 4096 mod 16 = c div 4096"
    using assms by (simp add: less_mult_imp_div_less)
  have b: "c mod 4096 = 256 * (c div 256 mod 16) + c mod 256"
    using mod_mult2_eq [of c 256 16] by simp
  have d: "c mod 256 = 16 * (c div 16 mod 16) + c mod 16"
    using mod_mult2_eq [of c 16 16] by simp
  have "c = 4096 * (c div 4096) + c mod 4096"
    by simp
  then have "4096 * (c div 4096) + 256 * (c div 256 mod 16) + 16 * (c div 16 mod 16)
      + c mod 16 = c"
    using b d by linarith
  then show ?thesis
    using l a by simp
qed

lemma parse_chars_escape:
  assumes "c < 65536" and "parse_chars r = Some (t, rest)"
  shows "parse_chars (unicode_escape c @ r) = Some (c # t, rest)"
  using assms(2) hex_digits_value [OF assms(1)]
  by (simp add: unicode_escape_def hex4_def unhex4_def radix_digit_hexdig)

lemma parse_chars_unit:
  assumes "\<not> is_high_surrogate c" and "\<not> is_low_surrogate c" and "parse_chars r = Some (t, rest)"
  shows "parse_chars (quote_unit c @ r) = Some (c # t, rest)"
proof (cases "c < 32")
  case True
  then have "c < 65536" by simp
  from parse_chars_escape [OF this assms(3)] True assms(3) show ?thesis
    by (simp add: quote_unit_def unescape_def)
next
  case False
  then show ?thesis
    using assms(3) by (simp add: quote_unit_def unescape_def)
qed

lemma parse_chars_quote_units:
  "parse_chars (quote_units s @ 34 # rest) = Some (s, rest)"
proof (induction s rule: quote_units.induct)
  case 1
  then show ?case by simp
next
  case (2 c cs)
  show ?case
  proof (cases "is_high_surrogate c")
    case True
    then have c: "c < 65536" "c \<noteq> 34" "c \<noteq> 92" "\<not> c < 32"
      by (simp_all add: is_high_surrogate_def)
    show ?thesis
    proof (cases cs)
      case Nil
      have "parse_chars (34 # rest) = Some ([], rest)" by simp
      from parse_chars_escape [OF c(1) this] True Nil show ?thesis by simp
    next
      case (Cons d ds)
      show ?thesis
      proof (cases "is_low_surrogate d")
        case low: True
        then have d: "d \<noteq> 34" "d \<noteq> 92" "\<not> d < 32"
          by (simp_all add: is_low_surrogate_def)
        from "2.IH"(1) [OF True Cons low] True Cons low c d show ?thesis
          by simp
      next
        case nolow: False
        from parse_chars_escape [OF c(1) "2.IH"(2) [OF True Cons nolow]] True Cons nolow
        show ?thesis by simp
      qed
    qed
  next
    case False
    show ?thesis
    proof (cases "is_low_surrogate c")
      case True
      then have c: "c < 65536"
        by (simp add: is_low_surrogate_def)
      from parse_chars_escape [OF c "2.IH"(3) [OF False True]] False True
      show ?thesis by simp
    next
      case nolow: False
      from parse_chars_unit [OF False nolow "2.IH"(4) [OF False nolow]] False nolow
      show ?thesis by simp
    qed
  qed
qed

lemma skip_ws_nonws: "\<not> is_json_ws c \<Longrightarrow> skip_ws (c # r) = c # r"
  by (simp add: skip_ws_def)

lemma JSON_parse_string: "JSON_parse (QuoteJSONString s) = Inr (JStr s)"
proof -
  have p: "parse_chars (quote_units s @ [34]) = Some (s, [])"
    by (rule parse_chars_quote_units)
  have "parse_value (2 * length (QuoteJSONString s) + 2) (QuoteJSONString s) = Some (JStr s, [])"
    by (subst parse_value.simps) (simp add: QuoteJSONString_def skip_ws_def is_json_ws_def p)
  then show ?thesis
    by (simp add: JSON_parse_def skip_ws_def)
qed
subsection \<open>Numbers\<close>

lemma show_nat_digits: "list_all is_digit (show_nat n) \<and> show_nat n \<noteq> []"
proof (induction n rule: show_nat.induct)
  case (1 n)
  show ?case
  proof (cases "n < 10")
    case True
    then show ?thesis
      by (subst show_nat.simps, subst (2) show_nat.simps) (simp add: is_digit_def)
  next
    case False
    have "n mod 10 < 10" by simp
    then have d: "is_digit (48 + n mod 10)"
      by (simp add: is_digit_def)
    from "1.IH" [OF False] False d show ?thesis
      by (subst show_nat.simps, subst (2) show_nat.simps) simp
  qed
qed

lemma mv_digits_snoc: "mv_digits (xs @ [c]) = 10 * mv_digits xs + digit_val c"
  by (simp add: mv_digits_def)

lemma mv_digits_show_nat: "mv_digits (show_nat n) = n"
proof (induction n rule: show_nat.induct)
  case (1 n)
  show ?case
  proof (cases "n < 10")
    case True
    then show ?thesis
      by (subst show_nat.simps) (simp add: mv_digits_def digit_val_def)
  next
    case False
    from "1.IH" [OF False] False show ?thesis
      by (subst show_nat.simps) (simp add: mv_digits_snoc digit_val_def)
  qed
qed

lemma hd_show_nat: "0 < n \<Longrightarrow> hd (show_nat n) \<noteq> 48"
proof (induction n rule: show_nat.induct)
  case (1 n)
  show ?case
  proof (cases "n < 10")
    case True
    then show ?thesis
      using "1.prems" by (subst show_nat.simps) simp
  next
    case False
    then have "0 < n div 10" by simp
    from "1.IH" [OF False this] False show_nat_digits [of "n div 10"] show ?thesis
      by (subst show_nat.simps) simp
  qed
qed

lemma foldl_digits:
  "foldl (\<lambda>a c. 10 * a + digit_val c) a ys =
     a * 10 ^ length ys + foldl (\<lambda>a c. 10 * a + digit_val c) 0 ys"
proof (induction ys arbitrary: a)
  case Nil
  then show ?case by simp
next
  case (Cons y ys)
  have a: "foldl (\<lambda>a c. 10 * a + digit_val c) (10 * a + digit_val y) ys =
      (10 * a + digit_val y) * 10 ^ length ys + foldl (\<lambda>a c. 10 * a + digit_val c) 0 ys"
    by (rule Cons.IH)
  have b: "foldl (\<lambda>a c. 10 * a + digit_val c) (digit_val y) ys =
      digit_val y * 10 ^ length ys + foldl (\<lambda>a c. 10 * a + digit_val c) 0 ys"
    by (rule Cons.IH)
  show ?case
    by (simp only: foldl_Cons a b mult_0_right add_0 length_Cons power_Suc)
      (simp add: algebra_simps)
qed

lemma mv_digits_append: "mv_digits (xs @ ys) = mv_digits xs * 10 ^ length ys + mv_digits ys"
  unfolding mv_digits_def foldl_append by (rule foldl_digits)

lemma mv_digits_zeros: "mv_digits (replicate z 48) = 0"
  by (induction z) (simp_all add: mv_digits_def digit_val_def)

lemma strip10_normal: "m mod 10 \<noteq> 0 \<Longrightarrow> strip10 m e = (m, e)"
  by (subst strip10.simps) simp

lemma strip10_pow: "m \<noteq> 0 \<Longrightarrow> strip10 (m * 10 ^ z) e = strip10 m (e + int z)"
proof (induction z arbitrary: e)
  case 0
  then show ?case by simp
next
  case (Suc z)
  have a: "m * 10 ^ Suc z \<noteq> 0" using Suc.prems by simp
  have b: "m * 10 ^ Suc z mod 10 = 0" by simp
  have c: "m * 10 ^ Suc z div 10 = m * 10 ^ z" by simp
  have "strip10 (m * 10 ^ Suc z) e = strip10 (m * 10 ^ z) (e + 1)"
    by (subst strip10.simps) (simp only: a b c simp_thms if_True)
  then show ?case
    using Suc.IH [OF Suc.prems, of "e + 1"] by (simp add: add.assoc)
qed

lemma dec_pow:
  assumes "m \<noteq> 0" and "m mod 10 \<noteq> 0"
  shows "dec (m * 10 ^ z) e = Fin m (e + int z)"
proof -
  have "strip10 (m * 10 ^ z) e = (m, e + int z)"
    unfolding strip10_pow [OF assms(1)] by (rule strip10_normal [OF assms(2)])
  then show ?thesis
    using assms(1) by (simp add: dec_def)
qed

lemma dec_normal:
  assumes "m \<noteq> 0" and "m mod 10 \<noteq> 0"
  shows "dec m e = Fin m e"
  using dec_pow [OF assms, of 0 e] by simp


lemma takeWhile_digits:
  assumes "list_all is_digit ds" and "rest = [] \<or> \<not> is_digit (hd rest)"
  shows "takeWhile is_digit (ds @ rest) = ds \<and> dropWhile is_digit (ds @ rest) = rest"
proof -
  have a: "\<And>x. x \<in> set ds \<Longrightarrow> is_digit x"
    using assms(1) by (simp add: list_all_iff)
  have t: "takeWhile is_digit rest = []" and d: "dropWhile is_digit rest = rest"
    using assms(2) by (cases rest; simp)+
  show ?thesis
    using a t d by simp
qed

lemma takeWhile_show_nat:
  "takeWhile is_digit (show_nat x) = show_nat x \<and> dropWhile is_digit (show_nat x) = []"
  using takeWhile_digits [of "show_nat x" "[]"] show_nat_digits [of x] by simp

lemma parse_exponent_plus: "parse_exponent (101 # 43 # show_nat x) = Some (int x, [])"
  using show_nat_digits [of x]
  by (simp add: parse_exponent_def takeWhile_show_nat mv_digits_show_nat)

lemma parse_exponent_minus: "parse_exponent (101 # 45 # show_nat x) = Some (- int x, [])"
  using show_nat_digits [of x]
  by (simp add: parse_exponent_def takeWhile_show_nat mv_digits_show_nat)

lemma parse_fraction_digits:
  assumes "list_all is_digit fs" and "fs \<noteq> []" and "rest = [] \<or> \<not> is_digit (hd rest)"
  shows "parse_fraction (46 # fs @ rest) = Some (fs, rest)"
  using takeWhile_digits [OF assms(1,3)] assms(2) by (simp add: parse_fraction_def)

lemma parse_unsigned_digits:
  assumes "list_all is_digit ds" and "ds \<noteq> []" and "hd ds \<noteq> 48"
    and "rest = [] \<or> \<not> is_digit (hd rest)"
    and "parse_fraction rest = Some (fp, r2)" and "parse_exponent r2 = Some (x, r3)"
  shows "parse_unsigned (ds @ rest) =
    Some (dec (int (mv_digits (ds @ fp))) (x - int (length fp)), r3)"
proof -
  obtain c r where ds: "ds = c # r"
    using assms(2) by (cases ds) auto
  have c: "is_digit c" "c \<noteq> 48"
    using assms(1,3) ds by simp_all
  have "parse_unsigned (c # r @ rest) =
    Some (dec (int (mv_digits (ds @ fp))) (x - int (length fp)), r3)"
    using takeWhile_digits [OF assms(1,4)] c assms(5,6)
    by (simp add: parse_unsigned_def ds Let_def)
  then show ?thesis by (simp add: ds)
qed

lemma parse_unsigned_zero:
  assumes "parse_fraction rest = Some (fp, r2)" and "parse_exponent r2 = Some (x, r3)"
  shows "parse_unsigned (48 # rest) =
    Some (dec (int (mv_digits (48 # fp))) (x - int (length fp)), r3)"
  using assms by (simp add: parse_unsigned_def is_digit_def)


lemma str_chars:
  "str ''.'' = [46]" "str ''0.'' = [48, 46]" "str ''e'' = [101]" "str ''-'' = [45]"
  "str ''+'' = [43]" "str ''0'' = [48]"
  by (simp_all add: str_def)

lemma parse_exponent_nothing: "parse_exponent [] = Some (0, [])"
  by (simp add: parse_exponent_def)

lemma parse_fraction_nothing: "parse_fraction [] = Some ([], [])"
  by (simp add: parse_fraction_def)

lemma parse_exponent_signed:
  "parse_exponent (101 # (if x < 0 then str ''-'' else str ''+'') @ show_nat (nat \<bar>x\<bar>)) =
     Some (x, [])"
proof (cases "x < 0")
  case True
  then show ?thesis
    using parse_exponent_minus [of "nat (- x)"] by (simp add: str_chars)
next
  case False
  then show ?thesis
    using parse_exponent_plus [of "nat x"] by (simp add: str_chars)
qed

lemma parse_unsigned_format:
  assumes "0 < M" and "M mod 10 \<noteq> 0"
  shows "parse_unsigned (format_decimal (show_nat M) e) = Some (Fin (int M) e, [])"
proof -
  let ?s = "show_nat M"
  let ?k = "int (length ?s)"
  let ?n = "e + ?k"
  have dg: "list_all is_digit ?s" and ne: "?s \<noteq> []"
    using show_nat_digits [of M] by simp_all
  have hd: "hd ?s \<noteq> 48"
    using assms(1) by (rule hd_show_nat)
  have mv: "mv_digits ?s = M"
    by (rule mv_digits_show_nat)
  have m0: "int M \<noteq> 0"
    using assms(1) by simp
  have m10: "int M mod 10 \<noteq> 0"
    using assms(2) by presburger
  have kpos: "0 < ?k"
    using ne by simp
  consider (A) "?k \<le> ?n" "?n \<le> 21"
    | (B) "\<not> (?k \<le> ?n \<and> ?n \<le> 21)" "0 < ?n" "?n \<le> 21"
    | (C) "\<not> (?k \<le> ?n \<and> ?n \<le> 21)" "\<not> (0 < ?n \<and> ?n \<le> 21)" "- 6 < ?n" "?n \<le> 0"
    | (D) "\<not> (?k \<le> ?n \<and> ?n \<le> 21)" "\<not> (0 < ?n \<and> ?n \<le> 21)" "\<not> (- 6 < ?n \<and> ?n \<le> 0)"
    by blast
  then show ?thesis
  proof cases
    case A
    let ?z = "nat (?n - ?k)"
    have e: "e = int ?z" using A by simp
    have f: "format_decimal ?s e = (?s @ replicate ?z 48) @ []"
      using A by (simp add: format_decimal_def Let_def)
    have d1: "list_all is_digit (?s @ replicate ?z 48)"
      using dg by (auto simp add: is_digit_def list_all_iff)
    have h1: "hd (?s @ replicate ?z 48) \<noteq> 48"
      using hd ne by simp
    have p: "parse_unsigned ((?s @ replicate ?z 48) @ []) =
        Some (dec (int (mv_digits ((?s @ replicate ?z 48) @ []))) (0 - int (length ([]::jsstring))), [])"
      by (rule parse_unsigned_digits [OF d1 _ h1 _ parse_fraction_nothing parse_exponent_nothing])
        (simp_all add: ne)
    have v: "int (mv_digits (?s @ replicate ?z 48)) = int M * 10 ^ ?z"
      by (simp add: mv_digits_append mv mv_digits_zeros)
    show ?thesis
      unfolding f p using dec_pow [OF m0 m10, of ?z 0] v e by simp
  next
    case B
    then have nk: "?n < ?k" by linarith
    let ?a = "nat ?n"
    have a: "0 < ?a" "?a < length ?s"
      using B nk by simp_all
    have f: "format_decimal ?s e = take ?a ?s @ (46 # drop ?a ?s @ [])"
      using B by (simp add: format_decimal_def Let_def str_chars)
    have d1: "list_all is_digit (take ?a ?s)" and d2: "list_all is_digit (drop ?a ?s)"
      using dg by (auto simp add: list_all_iff dest: in_set_takeD in_set_dropD)
    have n1: "take ?a ?s \<noteq> []" and n2: "drop ?a ?s \<noteq> []"
      using a ne by simp_all
    have h1: "hd (take ?a ?s) \<noteq> 48"
      using hd a by simp
    have pf: "parse_fraction (46 # drop ?a ?s @ []) = Some (drop ?a ?s, [])"
      by (rule parse_fraction_digits [OF d2 n2]) simp
    have p: "parse_unsigned (take ?a ?s @ (46 # drop ?a ?s @ [])) =
        Some (dec (int (mv_digits (take ?a ?s @ drop ?a ?s))) (0 - int (length (drop ?a ?s))), [])"
      by (rule parse_unsigned_digits [OF d1 n1 h1 _ pf parse_exponent_nothing])
        (simp add: is_digit_def)
    have x: "0 - int (length (drop ?a ?s)) = e"
      using a by simp
    show ?thesis
      unfolding f p x using dec_normal [OF m0 m10, of e] mv by simp
  next
    case C
    let ?z = "nat (- ?n)"
    have f: "format_decimal ?s e = 48 # (46 # (replicate ?z 48 @ ?s) @ [])"
      using C by (simp add: format_decimal_def Let_def str_chars)
    have d2: "list_all is_digit (replicate ?z 48 @ ?s)"
      using dg by (auto simp add: is_digit_def list_all_iff)
    have n2: "replicate ?z 48 @ ?s \<noteq> []"
      using ne by simp
    have pf: "parse_fraction (46 # (replicate ?z 48 @ ?s) @ []) = Some (replicate ?z 48 @ ?s, [])"
      by (rule parse_fraction_digits [OF d2 n2]) simp
    have p: "parse_unsigned (48 # (46 # (replicate ?z 48 @ ?s) @ [])) =
        Some (dec (int (mv_digits (48 # replicate ?z 48 @ ?s)))
          (0 - int (length (replicate ?z 48 @ ?s))), [])"
      by (rule parse_unsigned_zero [OF pf parse_exponent_nothing])
    have v: "mv_digits (48 # replicate ?z 48 @ ?s) = M"
      using mv_digits_append [of "48 # replicate ?z 48" ?s] mv_digits_zeros [of "Suc ?z"] mv
      by simp
    have x: "0 - int (length (replicate ?z 48 @ ?s)) = e"
      using C by simp
    show ?thesis
      unfolding f p x v using dec_normal [OF m0 m10, of e] by simp
  next
    case D
    let ?x = "?n - 1"
    let ?es = "(if ?x < 0 then str ''-'' else str ''+'') @ show_nat (nat \<bar>?x\<bar>)"
    have pe: "parse_exponent (101 # ?es) = Some (?x, [])"
      by (rule parse_exponent_signed)
    show ?thesis
    proof (cases "?k = 1")
      case True
      have f: "format_decimal ?s e = ?s @ (101 # ?es)"
        by (simp only: format_decimal_def Let_def D if_False) (simp add: True str_chars)
      have pf: "parse_fraction (101 # ?es) = Some ([], 101 # ?es)"
        by (simp add: parse_fraction_def)
      have p: "parse_unsigned (?s @ (101 # ?es)) =
          Some (dec (int (mv_digits (?s @ []))) (?x - int (length ([]::jsstring))), [])"
        by (rule parse_unsigned_digits [OF dg ne hd _ pf pe]) (simp add: is_digit_def)
      have x: "?x - int (length ([]::jsstring)) = e"
        using True by simp
      show ?thesis
        unfolding f p x using dec_normal [OF m0 m10, of e] mv by simp
    next
      case False
      then have k2: "1 < length ?s"
        using ne by (cases ?s) auto
      have f: "format_decimal ?s e = take 1 ?s @ (46 # drop 1 ?s @ (101 # ?es))"
        using k2 by (simp only: format_decimal_def Let_def D if_False) (simp add: str_chars)
      have d1: "list_all is_digit (take 1 ?s)" and d2: "list_all is_digit (drop 1 ?s)"
        using dg by (auto simp add: list_all_iff dest: in_set_takeD in_set_dropD)
      have n1: "take 1 ?s \<noteq> []" and n2: "drop 1 ?s \<noteq> []"
        using k2 ne by simp_all
      have h1: "hd (take 1 ?s) \<noteq> 48"
        using hd by simp
      have pf: "parse_fraction (46 # drop 1 ?s @ (101 # ?es)) = Some (drop 1 ?s, 101 # ?es)"
        by (rule parse_fraction_digits [OF d2 n2]) (simp add: is_digit_def)
      have p: "parse_unsigned (take 1 ?s @ (46 # drop 1 ?s @ (101 # ?es))) =
          Some (dec (int (mv_digits (take 1 ?s @ drop 1 ?s))) (?x - int (length (drop 1 ?s))), [])"
        by (rule parse_unsigned_digits [OF d1 n1 h1 _ pf pe]) (simp add: is_digit_def)
      have x: "?x - int (length (drop 1 ?s)) = e"
        using k2 by simp
      show ?thesis
        unfolding f p x using dec_normal [OF m0 m10, of e] mv by simp
    qed
  qed
qed

lemma parse_number_unsigned:
  assumes "parse_unsigned t = Some r"
  shows "parse_number t = Some r"
proof (cases t)
  case Nil
  then show ?thesis using assms by (simp add: parse_unsigned_def)
next
  case (Cons c cs)
  then have "is_digit c"
    using assms by (auto simp add: parse_unsigned_def split: if_splits)
  then have "c \<noteq> 45"
    by (auto simp add: is_digit_def)
  then show ?thesis
    using assms Cons by (simp add: parse_number_def)
qed

lemma parse_number_toString:
  assumes "valid_value (JNum (Fin m e))"
  shows "parse_number (Number_toString (Fin m e)) = Some (Fin m e, [])"
proof -
  consider (zero) "m = 0" "e = 0" | (pos) "0 < m" "m mod 10 \<noteq> 0" | (neg) "m < 0" "m mod 10 \<noteq> 0"
    using assms by (cases "m = 0"; cases "0 < m") (auto split: if_splits)
  then show ?thesis
  proof cases
    case zero
    have "parse_unsigned (48 # []) = Some (dec (int (mv_digits (48 # []))) (0 - int (length ([]::jsstring))), [])"
      by (rule parse_unsigned_zero [OF parse_fraction_nothing parse_exponent_nothing])
    then have "parse_unsigned [48] = Some (Fin 0 0, [])"
      by (simp add: mv_digits_def digit_val_def dec_def)
    from parse_number_unsigned [OF this] zero show ?thesis
      by (simp add: Number_toString_def str_chars)
  next
    case pos
    let ?M = "nat m"
    have "int (?M mod 10) = m mod 10"
      using pos by (simp add: zmod_int)
    then have M: "0 < ?M" "?M mod 10 \<noteq> 0" "int ?M = m"
      using pos by auto
    from parse_number_unsigned [OF parse_unsigned_format [OF M(1,2), of e]] pos M(3)
    show ?thesis
      by (simp add: Number_toString_def)
  next
    case neg
    let ?M = "nat (- m)"
    have a: "(- m) mod 10 \<noteq> 0"
      using neg(2) by presburger
    have "int (?M mod 10) = (- m) mod 10"
      using neg by (simp add: zmod_int)
    then have M: "0 < ?M" "?M mod 10 \<noteq> 0" "int ?M = - m"
      using neg a by auto
    have "parse_number (45 # format_decimal (show_nat ?M) e) = Some (neg (Fin (int ?M) e), [])"
      using parse_unsigned_format [OF M(1,2), of e] by (simp add: parse_number_def)
    then show ?thesis
      using neg M(3) by (simp add: Number_toString_def str_chars)
  qed
qed

lemma JSON_parse_number:
  assumes "parse_number t = Some (x, [])"
  shows "JSON_parse t = Inr (JNum x)"
proof (cases t)
  case Nil
  then show ?thesis using assms by (simp add: parse_number_def)
next
  case (Cons c cs)
  have c: "c = 45 \<or> is_digit c"
    using assms Cons by (auto simp add: parse_number_def parse_unsigned_def split: if_splits)
  then have w: "\<not> is_json_ws c" "c \<noteq> 123" "c \<noteq> 91" "c \<noteq> 34"
    by (auto simp add: is_json_ws_def is_digit_def)
  have "parse_value (2 * length t + 2) t = Some (JNum x, [])"
    using assms c w Cons by (subst parse_value.simps) (simp add: skip_ws_def)
  then show ?thesis
    by (simp add: JSON_parse_def skip_ws_def)
qed

lemma JSON_parse_literals:
  "JSON_parse (str ''null'') = Inr JNull"
  "JSON_parse (str ''true'') = Inr (JBool True)"
  "JSON_parse (str ''false'') = Inr (JBool False)"
  by (simp_all add: JSON_parse_def str_def parse_value.simps skip_ws_def is_json_ws_def
      is_digit_def parse_literal_def)

lemma JSON_round_trip:
  assumes "valid_value v"
  shows "JSON_parse (stored_text v) = Inr v"
proof (cases v)
  case (JNum x)
  then obtain m e where x: "x = Fin m e"
    using assms by (cases x) simp_all
  have "JSON_parse (Number_toString (Fin m e)) = Inr (JNum (Fin m e))"
    using assms JNum x by (intro JSON_parse_number parse_number_toString) simp
  then show ?thesis
    using JNum x by (simp add: stored_text_def)
qed (use assms in \<open>simp_all add: stored_text_def JSON_parse_literals JSON_parse_string\<close>)

lemma NaN_is_read_back_as_null:
  assumes "\<not> denied ls" and "has_room ls key (stored_text (JNum NaN))"
  shows "write_then_read ls key (JNum NaN) fallback = Inr JNull"
  using assms JSON_parse_literals(1)
  by (simp add: write_then_read_def writeStorage_cases readStorage_cases bind_js_def update_conv'
      stored_text_def)

text \<open>
  Claim C3. A valid value is a text, a boolean, \<^verbatim>\<open>null\<close> or a finite number, and the
  store is one that works: access is not refused and the text written fits. Then
  \<open>writeStorage\<close> followed by \<open>readStorage\<close> of the same key returns the value written,
  whatever the key and the fallback: the text \<^verbatim>\<open>JSON.stringify\<close> writes is parsed back
  to the same value by \<^verbatim>\<open>JSON.parse\<close>, for every string (escapes and surrogates
  included) and every number (in each of the four layouts of its decimal).
\<close>

theorem write_then_read_returns_value:
  assumes "valid_value v" and "\<not> denied ls" and "has_room ls key (stored_text v)"
  shows "write_then_read ls key v fallback = Inr v"
  using assms JSON_round_trip [OF assms(1)]
  by (simp add: write_then_read_def writeStorage_cases readStorage_cases bind_js_def update_conv')

theorem write_then_read_returns_value_witness:
  "valid_value (JNum (Fin 145 (- 1)))
   \<and> \<not> denied \<lparr>items = [], denied = False, quota = Some 100\<rparr>
   \<and> has_room \<lparr>items = [], denied = False, quota = Some 100\<rparr> (str ''codeDiff.fontSize'')
         (stored_text (JNum (Fin 145 (- 1))))
   \<and> write_then_read \<lparr>items = [], denied = False, quota = Some 100\<rparr>
         (str ''codeDiff.fontSize'') (JNum (Fin 145 (- 1))) (JNum (Fin 14 0))
       = Inr (JNum (Fin 145 (- 1)))"
proof -
  have t: "stored_text (JNum (Fin 145 (- 1))) = str ''14.5''"
    by (simp add: stored_text_def Number_toString_def format_decimal_def show_nat.simps str_def)
  have v: "valid_value (JNum (Fin 145 (- 1)))"
    by simp
  have d: "\<not> denied \<lparr>items = [], denied = False, quota = Some 100\<rparr>"
    by simp
  have r: "has_room \<lparr>items = [], denied = False, quota = Some 100\<rparr> (str ''codeDiff.fontSize'')
      (stored_text (JNum (Fin 145 (- 1))))"
    unfolding t by (simp add: has_room_def storage_size_def str_def)
  from write_then_read_returns_value [OF v d r] v d r show ?thesis
    by blast
qed

end
